theory Spec2Isabelle
  imports Main "HOL-Library.AList"
begin

section \<open>Side-effect analysis of the TensorFlow MLIR dialect\<close>

text \<open>
  A shallow embedding of
  \<^verbatim>\<open>tensorflow/compiler/mlir/tensorflow/analysis/side_effect_analysis.cc\<close>.

  An \<^verbatim>\<open>Operation*\<close> is a natural number (the identity of the operation), a
  resource id is an \<^verbatim>\<open>int64_t\<close> modelled as \<open>int\<close> (no arithmetic is done on
  ids). An \<^verbatim>\<open>llvm::DenseMap\<close> is an association list with unique keys
  (\<open>map_of\<close> finds, \<open>AList.update\<close> is \<^verbatim>\<open>m[k] = v\<close>), a
  \<^verbatim>\<open>DenseSet\<close>/\<^verbatim>\<open>SmallPtrSet\<close> is a list without duplicates
  (\<open>List.insert\<close>). The iteration order of the hashed containers is not specified
  by LLVM; the model iterates in list order.
\<close>

subsection \<open>Operations, values and the two oracles\<close>

text \<open>
  Modelled from the spec: the reserved sentinel \<^verbatim>\<open>UNKNOWN\<close>
  (\<^verbatim>\<open>ResourceAliasAnalysis::Info::kUnknownResourceId\<close>, declared in a header that
  is not part of the sources). No theorem below depends on its numeric value.
\<close>

definition kUnknownResourceId :: int where
  "kUnknownResourceId = - 1"

text \<open>\<^verbatim>\<open>tensorflow::XlaResourceOpKind\<close>, the verdict of the resource operation table.\<close>

datatype XlaResourceOpKind = kRead | kWrite | kReadWrite

text \<open>What \<^verbatim>\<open>llvm::isa\<close> can tell about an operation, as far as the analysis asks.\<close>

datatype OpClass = VarHandleOp | IdentityOp | IdentityNOp | OtherOp

text \<open>
  A value (operand or result) together with the answers of the alias analysis for it:
  whether its type is a resource type (\<^verbatim>\<open>filter_resources\<close>),
  \<^verbatim>\<open>IsUnknownResource\<close> and \<^verbatim>\<open>GetResourceUniqueIds\<close>.
\<close>

datatype Value = Value
  (is_resource: bool)
  (IsUnknownResource: bool)
  (GetResourceUniqueIds: "int list")

text \<open>
  An operation: its identity, its class, whether its dialect is the TensorFlow dialect,
  the entry of \<^verbatim>\<open>tensorflow::GetResourceOpInfoForOp\<close> for its name,
  \<^verbatim>\<open>TensorFlowDialect::CanHaveSideEffects\<close>, its operands, its results, and its
  regions (a region is a list of blocks, a block a list of operations).
\<close>

datatype Operation = Operation
  (op_ptr: nat)
  (isa: OpClass)
  (in_tf_dialect: bool)
  (GetResourceOpInfoForOp: "XlaResourceOpKind option")
  (CanHaveSideEffects: bool)
  (getOperands: "Value list")
  (getResults: "Value list")
  (getRegions: "Operation list list list")

type_synonym Block = "Operation list"
type_synonym Region = "Block list"

datatype error = AssertionFailure

subsection \<open>The analysis state\<close>

text \<open>
  Modelled from the spec: \<^verbatim>\<open>PerResourceAccessInfo\<close> and the fields of
  \<^verbatim>\<open>SideEffectAnalysisInfo\<close> are declared in the header, which is not part of the
  sources. A record that \<^verbatim>\<open>operator[]\<close> creates has no last write, no reads and
  all flags false.
\<close>

record PerResourceAccessInfo =
  last_write :: "nat option"
  reads_since_last_write :: "nat list"
  tracked_last_unknown_read :: bool
  tracked_last_unknown_write_for_read :: bool
  tracked_last_unknown_write_for_write :: bool

definition new_access_info :: PerResourceAccessInfo where
  "new_access_info =
     \<lparr>last_write = None, reads_since_last_write = [],
      tracked_last_unknown_read = False,
      tracked_last_unknown_write_for_read = False,
      tracked_last_unknown_write_for_write = False\<rparr>"

record SideEffectAnalysisInfo =
  per_resource_access_info :: "(int \<times> PerResourceAccessInfo) list"
  control_predecessors :: "(nat \<times> nat list) list"
  sorted_control_predecessors :: "(nat \<times> nat list) list"
  sorted_control_successors :: "(nat \<times> nat list) list"

definition empty_analysis :: SideEffectAnalysisInfo where
  "empty_analysis =
     \<lparr>per_resource_access_info = [], control_predecessors = [],
      sorted_control_predecessors = [], sorted_control_successors = []\<rparr>"

text \<open>\<^verbatim>\<open>m[k]\<close> read: the stored value, or the default one.\<close>

definition find_or :: "'v \<Rightarrow> ('k \<times> 'v) list \<Rightarrow> 'k \<Rightarrow> 'v" where
  "find_or d m k = (case map_of m k of None \<Rightarrow> d | Some v \<Rightarrow> v)"

subsection \<open>Helper functions\<close>

definition UnknownResourceSet :: "int list" where
  "UnknownResourceSet = [kUnknownResourceId]"

text \<open>
  One loop of \<^verbatim>\<open>FindAccessedResources\<close>; \<open>None\<close> is the early return of
  \<^verbatim>\<open>UnknownResourceSet()\<close>.
\<close>

fun insert_resources :: "Value list \<Rightarrow> int list \<Rightarrow> int list option" where
  "insert_resources [] resources = Some resources"
| "insert_resources (v # vs) resources =
     (if IsUnknownResource v then None
      else insert_resources vs (fold List.insert (GetResourceUniqueIds v) resources))"

definition filter_resources :: "Value list \<Rightarrow> Value list" where
  "filter_resources vs = filter is_resource vs"

definition FindAccessedResources :: "Operation \<Rightarrow> int list" where
  "FindAccessedResources op =
     (case insert_resources (filter_resources (getOperands op)) [] of
        None \<Rightarrow> UnknownResourceSet
      | Some resources \<Rightarrow>
          (case insert_resources (filter_resources (getResults op)) resources of
             None \<Rightarrow> UnknownResourceSet
           | Some resources' \<Rightarrow> resources'))"

definition GetResourceInfoForOp :: "Operation \<Rightarrow> XlaResourceOpKind option" where
  "GetResourceInfoForOp op =
     (if \<not> in_tf_dialect op then None else GetResourceOpInfoForOp op)"

definition OpIsReadOnly :: "Operation \<Rightarrow> bool" where
  "OpIsReadOnly op = (GetResourceInfoForOp op = Some kRead)"

definition OpIsDeclaration :: "Operation \<Rightarrow> bool" where
  "OpIsDeclaration op =
     (isa op = VarHandleOp \<or>
      ((isa op = IdentityNOp \<or> isa op = IdentityOp) \<and> FindAccessedResources op \<noteq> []))"

definition OpIsKnownToHaveNoSideEffect :: "Operation \<Rightarrow> bool" where
  "OpIsKnownToHaveNoSideEffect op =
     (if isa op = IdentityOp then True
      else if in_tf_dialect op then \<not> CanHaveSideEffects op
      else False)"

subsection \<open>The resource access tracker\<close>

definition TrackAccess ::
  "int \<Rightarrow> nat \<Rightarrow> bool \<Rightarrow> SideEffectAnalysisInfo \<Rightarrow> SideEffectAnalysisInfo" where
  "TrackAccess resource_id op read_only st =
     (let m0 = per_resource_access_info st;
          m1 = (if resource_id = kUnknownResourceId then
                  (if read_only then
                     map (\<lambda>(k, entry). (k, entry\<lparr>tracked_last_unknown_read := False\<rparr>)) m0
                   else [])
                else m0);
          info = find_or new_access_info m1 resource_id;
          info' = (if read_only then
                     info\<lparr>reads_since_last_write := reads_since_last_write info @ [op],
                          tracked_last_unknown_write_for_write := True\<rparr>
                   else
                     info\<lparr>tracked_last_unknown_write_for_read := True,
                          tracked_last_unknown_write_for_write := True,
                          tracked_last_unknown_read := True,
                          last_write := Some op,
                          reads_since_last_write := []\<rparr>)
      in st\<lparr>per_resource_access_info := AList.update resource_id info' m1\<rparr>)"

definition AddPredecessorsForAccess ::
  "int \<Rightarrow> nat \<Rightarrow> bool \<Rightarrow> SideEffectAnalysisInfo \<Rightarrow> SideEffectAnalysisInfo" where
  "AddPredecessorsForAccess resource_id op read_only st =
     (case map_of (per_resource_access_info st) resource_id of
        None \<Rightarrow> st
      | Some access_info \<Rightarrow>
          (let preds0 = find_or [] (control_predecessors st) op;
               preds1 = (if \<not> read_only
                         then fold List.insert (reads_since_last_write access_info) preds0
                         else preds0);
               read_tracked = (\<not> read_only \<and> reads_since_last_write access_info \<noteq> []);
               preds2 = (case last_write access_info of
                           Some w \<Rightarrow> (if \<not> read_tracked then List.insert w preds1 else preds1)
                         | None \<Rightarrow> preds1)
           in st\<lparr>control_predecessors := AList.update op preds2 (control_predecessors st)\<rparr>))"

subsection \<open>The region walker\<close>

text \<open>The lambda of \<^verbatim>\<open>AnalyzeRegion\<close>, with the state it captures made explicit.\<close>

definition unknown_access_indirectly_tracked_by_resource ::
  "SideEffectAnalysisInfo \<Rightarrow> int \<Rightarrow> bool \<Rightarrow> bool" where
  "unknown_access_indirectly_tracked_by_resource st resource read_only =
     (case map_of (per_resource_access_info st) resource of
        None \<Rightarrow> False
      | Some it \<Rightarrow>
          (let no_unknown_read =
                 (case map_of (per_resource_access_info st) kUnknownResourceId of
                    None \<Rightarrow> True
                  | Some unknown_it \<Rightarrow> reads_since_last_write unknown_it = [])
           in if read_only then tracked_last_unknown_write_for_read it
              else tracked_last_unknown_write_for_write it \<and>
                   (tracked_last_unknown_read it \<or> no_unknown_read)))"

text \<open>
  The loop over the tracked resources when the access is unknown: edges from every known
  resource, and whether one of them already tracks the unknown accesses.
\<close>

fun unknown_access_loop ::
  "int list \<Rightarrow> nat \<Rightarrow> bool \<Rightarrow> SideEffectAnalysisInfo \<times> bool \<Rightarrow> SideEffectAnalysisInfo \<times> bool"
  where
  "unknown_access_loop [] op read_only (st, tracked) = (st, tracked)"
| "unknown_access_loop (k # ks) op read_only (st, tracked) =
     (if k = kUnknownResourceId then unknown_access_loop ks op read_only (st, tracked)
      else
        (let st1 = AddPredecessorsForAccess k op read_only st;
             tracked1 = (tracked \<or> unknown_access_indirectly_tracked_by_resource st1 k read_only)
         in unknown_access_loop ks op read_only (st1, tracked1)))"

text \<open>The loop over the resources of an access to known resources.\<close>

fun known_access_loop ::
  "int list \<Rightarrow> nat \<Rightarrow> bool \<Rightarrow> SideEffectAnalysisInfo \<times> bool \<Rightarrow> SideEffectAnalysisInfo \<times> bool"
  where
  "known_access_loop [] op read_only (st, tracked) = (st, tracked)"
| "known_access_loop (resource # rs) op read_only (st, tracked) =
     (let st1 = AddPredecessorsForAccess resource op read_only st;
          tracked1 = (tracked \<or> unknown_access_indirectly_tracked_by_resource st1 resource read_only);
          st2 = TrackAccess resource op read_only st1
      in known_access_loop rs op read_only (st2, tracked1))"

text \<open>The resource set the walker uses for an operation that is not skipped.\<close>

definition accessed_resources :: "Operation \<Rightarrow> int list" where
  "accessed_resources op =
     (if GetResourceInfoForOp op \<noteq> None then FindAccessedResources op
      else UnknownResourceSet)"

text \<open>Edge emission and tracking for one operation, given its resource set.\<close>

definition emit_edges ::
  "int list \<Rightarrow> nat \<Rightarrow> bool \<Rightarrow> SideEffectAnalysisInfo \<Rightarrow> SideEffectAnalysisInfo" where
  "emit_edges resources op read_only st =
     (let is_unknown = (kUnknownResourceId \<in> set resources);
          (st1, indirectly_tracked_unknown_access) =
             (if is_unknown
              then unknown_access_loop (map fst (per_resource_access_info st)) op read_only
                     (st, False)
              else known_access_loop resources op read_only (st, False));
          st2 = (if \<not> indirectly_tracked_unknown_access
                 then AddPredecessorsForAccess kUnknownResourceId op read_only st1
                 else st1)
      in if is_unknown then TrackAccess kUnknownResourceId op read_only st2 else st2)"

text \<open>
  The body of the loop over the operations of a block, after the nested regions of the
  operation have been analysed. The \<^verbatim>\<open>assert\<close> is the error: the model is the
  build with assertions compiled in (without them the walk goes on with the empty set).
\<close>

definition analyze_op ::
  "Operation \<Rightarrow> SideEffectAnalysisInfo \<Rightarrow> error + SideEffectAnalysisInfo" where
  "analyze_op op st =
     (if OpIsDeclaration op then Inr st
      else if GetResourceInfoForOp op = None \<and> OpIsKnownToHaveNoSideEffect op then Inr st
      else
        (let resources = accessed_resources op
         in if resources = [] then Inl AssertionFailure
            else Inr (emit_edges resources (op_ptr op) (OpIsReadOnly op) st)))"

text \<open>Moving the predecessor sets of a child region into the current region.\<close>

definition move_child_predecessors ::
  "SideEffectAnalysisInfo \<Rightarrow> SideEffectAnalysisInfo \<Rightarrow> SideEffectAnalysisInfo" where
  "move_child_predecessors child_analysis st =
     st\<lparr>control_predecessors :=
          fold (\<lambda>entry m. AList.update (fst entry) (snd entry) m)
            (control_predecessors child_analysis) (control_predecessors st)\<rparr>"

text \<open>
  \<^verbatim>\<open>AnalyzeRegion\<close>: the loops over blocks, operations and nested regions as
  mutually recursive functions. Modelled from the spec: the constructor
  \<^verbatim>\<open>SideEffectAnalysisInfo(Region*, ...)\<close> of the header analyses the nested region
  as an independent scope, that is \<^verbatim>\<open>AnalyzeRegion\<close> on a fresh object.
\<close>

fun AnalyzeRegion :: "Region \<Rightarrow> SideEffectAnalysisInfo \<Rightarrow> error + SideEffectAnalysisInfo"
and AnalyzeBlock :: "Block \<Rightarrow> SideEffectAnalysisInfo \<Rightarrow> error + SideEffectAnalysisInfo"
and AnalyzeOperation :: "Operation \<Rightarrow> SideEffectAnalysisInfo \<Rightarrow> error + SideEffectAnalysisInfo"
and AnalyzeChildren :: "Region list \<Rightarrow> SideEffectAnalysisInfo \<Rightarrow> error + SideEffectAnalysisInfo"
where
  "AnalyzeRegion [] st = Inr st"
| "AnalyzeRegion (block # blocks) st =
     (case AnalyzeBlock block st of
        Inl e \<Rightarrow> Inl e
      | Inr st' \<Rightarrow> AnalyzeRegion blocks st')"
| "AnalyzeBlock [] st = Inr st"
| "AnalyzeBlock (op # ops) st =
     (case AnalyzeOperation op st of
        Inl e \<Rightarrow> Inl e
      | Inr st' \<Rightarrow> AnalyzeBlock ops st')"
| "AnalyzeOperation (Operation p c d i s operands results regions) st =
     (case AnalyzeChildren regions st of
        Inl e \<Rightarrow> Inl e
      | Inr st' \<Rightarrow> analyze_op (Operation p c d i s operands results regions) st')"
| "AnalyzeChildren [] st = Inr st"
| "AnalyzeChildren (child # children) st =
     (case AnalyzeRegion child empty_analysis of
        Inl e \<Rightarrow> Inl e
      | Inr child_analysis \<Rightarrow>
          AnalyzeChildren children (move_child_predecessors child_analysis st))"

subsection \<open>The graph finalizer\<close>

text \<open>
  \<^verbatim>\<open>llvm::sort\<close> with a comparator, as insertion sort. For a strict total order on
  distinct elements every comparison sort returns the same list.
\<close>

fun insort_by :: "('a \<Rightarrow> 'a \<Rightarrow> bool) \<Rightarrow> 'a \<Rightarrow> 'a list \<Rightarrow> 'a list" where
  "insort_by cmp x [] = [x]"
| "insort_by cmp x (y # ys) =
     (if cmp x y then x # y # ys else y # insort_by cmp x ys)"

definition llvm_sort :: "('a \<Rightarrow> 'a \<Rightarrow> bool) \<Rightarrow> 'a list \<Rightarrow> 'a list" where
  "llvm_sort cmp xs = foldr (insort_by cmp) xs []"

text \<open>\<^verbatim>\<open>m[k].push_back(v)\<close>.\<close>

definition push_back :: "nat \<Rightarrow> nat \<Rightarrow> (nat \<times> nat list) list \<Rightarrow> (nat \<times> nat list) list" where
  "push_back k v m = AList.update k (find_or [] m k @ [v]) m"

text \<open>The body of the first loop of \<^verbatim>\<open>AnalyzeFunction\<close>, for one entry.\<close>

definition populate_sorted ::
  "nat \<times> nat list \<Rightarrow> SideEffectAnalysisInfo \<Rightarrow> SideEffectAnalysisInfo" where
  "populate_sorted entry st =
     (let op = fst entry;
          st0 = st\<lparr>sorted_control_predecessors :=
                    AList.update op (find_or [] (sorted_control_predecessors st) op)
                      (sorted_control_predecessors st)\<rparr>
      in fold (\<lambda>predecessor s.
                 s\<lparr>sorted_control_predecessors :=
                      push_back op predecessor (sorted_control_predecessors s),
                   sorted_control_successors :=
                      push_back predecessor op (sorted_control_successors s)\<rparr>)
           (snd entry) st0)"

definition sort_entries ::
  "(nat \<Rightarrow> nat \<Rightarrow> bool) \<Rightarrow> (nat \<times> nat list) list \<Rightarrow> (nat \<times> nat list) list" where
  "sort_entries isBeforeInBlock m =
     map (\<lambda>entry. (fst entry, llvm_sort isBeforeInBlock (snd entry))) m"

text \<open>
  \<^verbatim>\<open>AnalyzeFunction\<close>. The comparator \<^verbatim>\<open>Operation::isBeforeInBlock\<close> of MLIR is a
  parameter.
\<close>

definition AnalyzeFunction ::
  "(nat \<Rightarrow> nat \<Rightarrow> bool) \<Rightarrow> Region \<Rightarrow> SideEffectAnalysisInfo \<Rightarrow>
     error + SideEffectAnalysisInfo" where
  "AnalyzeFunction isBeforeInBlock body st =
     (case AnalyzeRegion body st of
        Inl e \<Rightarrow> Inl e
      | Inr st1 \<Rightarrow>
          (let st2 = fold populate_sorted (control_predecessors st1) st1;
               st3 = st2\<lparr>control_predecessors := []\<rparr>;
               st4 = st3\<lparr>sorted_control_predecessors :=
                          sort_entries isBeforeInBlock (sorted_control_predecessors st3)\<rparr>
           in Inr (st4\<lparr>sorted_control_successors :=
                          sort_entries isBeforeInBlock (sorted_control_successors st4)\<rparr>)))"

text \<open>
  Modelled from the spec: the constructor \<^verbatim>\<open>SideEffectAnalysisInfo(FuncOp, ...)\<close> of
  the header, which runs \<^verbatim>\<open>AnalyzeFunction\<close> on a fresh object.
\<close>

definition analyze_func ::
  "(nat \<Rightarrow> nat \<Rightarrow> bool) \<Rightarrow> Region \<Rightarrow> error + SideEffectAnalysisInfo" where
  "analyze_func isBeforeInBlock body = AnalyzeFunction isBeforeInBlock body empty_analysis"

subsection \<open>The query interface\<close>

definition DirectControlPredecessors ::
  "SideEffectAnalysisInfo \<Rightarrow> nat \<Rightarrow> (nat \<Rightarrow> bool) option \<Rightarrow> nat list" where
  "DirectControlPredecessors st op flt =
     (case map_of (sorted_control_predecessors st) op of
        None \<Rightarrow> []
      | Some predecessors \<Rightarrow>
          filter (\<lambda>predecessor. case flt of None \<Rightarrow> True | Some f \<Rightarrow> f predecessor)
            predecessors)"

definition DirectControlSuccessors ::
  "SideEffectAnalysisInfo \<Rightarrow> nat \<Rightarrow> (nat \<Rightarrow> bool) option \<Rightarrow> nat list" where
  "DirectControlSuccessors st op flt =
     (case map_of (sorted_control_successors st) op of
        None \<Rightarrow> []
      | Some successors \<Rightarrow>
          filter (\<lambda>successor. case flt of None \<Rightarrow> True | Some f \<Rightarrow> f successor)
            successors)"

subsection \<open>Notions used to state the properties\<close>

text \<open>
  All operations of a region, a block, an operation and a list of regions, nested ones
  included.
\<close>

fun region_ops :: "Region \<Rightarrow> Operation list"
and block_ops :: "Block \<Rightarrow> Operation list"
and operation_ops :: "Operation \<Rightarrow> Operation list"
and children_ops :: "Region list \<Rightarrow> Operation list"
where
  "region_ops [] = []"
| "region_ops (block # blocks) = block_ops block @ region_ops blocks"
| "block_ops [] = []"
| "block_ops (op # ops) = operation_ops op @ block_ops ops"
| "operation_ops (Operation p c d i s operands results regions) =
     Operation p c d i s operands results regions # children_ops regions"
| "children_ops [] = []"
| "children_ops (child # children) = region_ops child @ children_ops children"

text \<open>The regions nested in a region, a block, an operation and a list of regions.\<close>

fun region_regions :: "Region \<Rightarrow> Region list"
and block_regions :: "Block \<Rightarrow> Region list"
and operation_regions :: "Operation \<Rightarrow> Region list"
and children_regions :: "Region list \<Rightarrow> Region list"
where
  "region_regions [] = []"
| "region_regions (block # blocks) = block_regions block @ region_regions blocks"
| "block_regions [] = []"
| "block_regions (op # ops) = operation_regions op @ block_regions ops"
| "operation_regions (Operation p c d i s operands results regions) = children_regions regions"
| "children_regions [] = []"
| "children_regions (child # children) =
     child # region_regions child @ children_regions children"

text \<open>The reads recorded for the unknown resource since its last write.\<close>

definition pending_unknown_reads :: "SideEffectAnalysisInfo \<Rightarrow> nat list" where
  "pending_unknown_reads st =
     reads_since_last_write (find_or new_access_info (per_resource_access_info st) kUnknownResourceId)"

text \<open>The operation has at least one resource operand or result.\<close>

definition has_resource_value :: "Operation \<Rightarrow> bool" where
  "has_resource_value op =
     (filter_resources (getOperands op) @ filter_resources (getResults op) \<noteq> [])"

text \<open>
  The answers of the alias analysis for the resource operands and results of the
  operation: each of them is reported unknown or aliases at least one id.
\<close>

definition alias_ids_known :: "Operation \<Rightarrow> bool" where
  "alias_ids_known op =
     (\<forall>v \<in> set (filter_resources (getOperands op) @ filter_resources (getResults op)).
        IsUnknownResource v \<or> GetResourceUniqueIds v \<noteq> [])"

text \<open>
  Some resource operand or result of the operation is reported unknown by the alias
  analysis, or has a non-empty set of ids.
\<close>

definition has_resolved_resource :: "Operation \<Rightarrow> bool" where
  "has_resolved_resource op =
     (\<exists>v \<in> set (filter_resources (getOperands op) @ filter_resources (getResults op)).
        IsUnknownResource v \<or> GetResourceUniqueIds v \<noteq> [])"

text \<open>
  The assertion of the walker fails at the operation: the operation is not skipped as a
  declaration, the table classifies it, and its resource set is empty.
\<close>

definition assertion_fails_at :: "Operation \<Rightarrow> bool" where
  "assertion_fails_at op =
     (\<not> OpIsDeclaration op \<and> GetResourceInfoForOp op \<noteq> None \<and> accessed_resources op = [])"

text \<open>The access record that a write leaves.\<close>

definition written_by :: "nat \<Rightarrow> PerResourceAccessInfo" where
  "written_by w =
     \<lparr>last_write = Some w, reads_since_last_write = [],
      tracked_last_unknown_read = True,
      tracked_last_unknown_write_for_read = True,
      tracked_last_unknown_write_for_write = True\<rparr>"

text \<open>
  An operation that the walker analyses as a write, respectively as a read, of exactly
  one resource: it is not a declaration, the table classifies it, and the alias analysis
  resolves its resource operands and results to that one id.
\<close>

definition writes_resource :: "Operation \<Rightarrow> int \<Rightarrow> bool" where
  "writes_resource op r =
     (\<not> OpIsDeclaration op \<and> GetResourceInfoForOp op \<noteq> None \<and> \<not> OpIsReadOnly op \<and>
      FindAccessedResources op = [r])"

definition reads_resource :: "Operation \<Rightarrow> int \<Rightarrow> bool" where
  "reads_resource op r =
     (\<not> OpIsDeclaration op \<and> OpIsReadOnly op \<and> FindAccessedResources op = [r])"

text \<open>
  An operation that the walker analyses as a write of the unknown resource: it is not
  skipped, it is not read-only, and its resource set holds the unknown id.
\<close>

definition writes_unknown :: "Operation \<Rightarrow> bool" where
  "writes_unknown op =
     (\<not> OpIsDeclaration op \<and>
      \<not> (GetResourceInfoForOp op = None \<and> OpIsKnownToHaveNoSideEffect op) \<and>
      \<not> OpIsReadOnly op \<and> kUnknownResourceId \<in> set (accessed_resources op))"

text \<open>
  An operation that leaves the records of a resource and of the unknown resource alone:
  the walker skips it, or it is classified and accesses known resources other than that
  one.
\<close>

definition bypasses :: "Operation \<Rightarrow> int \<Rightarrow> bool" where
  "bypasses op r =
     (OpIsDeclaration op \<or>
      (GetResourceInfoForOp op = None \<and> OpIsKnownToHaveNoSideEffect op) \<or>
      (GetResourceInfoForOp op \<noteq> None \<and>
       kUnknownResourceId \<notin> set (FindAccessedResources op) \<and>
       r \<notin> set (FindAccessedResources op)))"

text \<open>
  The comparator is a strict total order on a set of operations: irreflexive, transitive,
  and any two different operations are comparable.
\<close>

definition strict_total_order_on :: "'a set \<Rightarrow> ('a \<Rightarrow> 'a \<Rightarrow> bool) \<Rightarrow> bool" where
  "strict_total_order_on A cmp =
     ((\<forall>a \<in> A. \<not> cmp a a) \<and>
      (\<forall>a \<in> A. \<forall>b \<in> A. \<forall>c \<in> A. cmp a b \<longrightarrow> cmp b c \<longrightarrow> cmp a c) \<and>
      (\<forall>a \<in> A. \<forall>b \<in> A. a \<noteq> b \<longrightarrow> cmp a b \<or> cmp b a))"

subsection \<open>Notions used in the proofs\<close>

text \<open>The operations an access record mentions.\<close>

definition record_ops :: "PerResourceAccessInfo \<Rightarrow> nat set" where
  "record_ops info = set_option (last_write info) \<union> set (reads_since_last_write info)"

text \<open>The operations mentioned by some access record of the state.\<close>

definition tracked_ops :: "SideEffectAnalysisInfo \<Rightarrow> nat set" where
  "tracked_ops st = (\<Union>info \<in> ran (map_of (per_resource_access_info st)). record_ops info)"

text \<open>The operations mentioned by the access record of one resource.\<close>

definition resource_ops :: "SideEffectAnalysisInfo \<Rightarrow> int \<Rightarrow> nat set" where
  "resource_ops st r =
     (case map_of (per_resource_access_info st) r of None \<Rightarrow> {} | Some info \<Rightarrow> record_ops info)"

text \<open>The raw predecessor set of an operation.\<close>

definition preds_of :: "SideEffectAnalysisInfo \<Rightarrow> nat \<Rightarrow> nat set" where
  "preds_of st p = set (find_or [] (control_predecessors st) p)"

text \<open>The operations that have an entry in the raw predecessor map.\<close>

definition pred_keys :: "SideEffectAnalysisInfo \<Rightarrow> nat set" where
  "pred_keys st = dom (map_of (control_predecessors st))"

text \<open>
  Every operation the state mentions: in an access record or in the raw predecessor map.
\<close>

definition mentioned :: "SideEffectAnalysisInfo \<Rightarrow> nat set" where
  "mentioned st = tracked_ops st \<union> pred_keys st \<union> (\<Union>q. preds_of st q)"

text \<open>The identities of the operations of a list that are not declarations.\<close>

definition effect_ptrs :: "Operation list \<Rightarrow> nat set" where
  "effect_ptrs ops = op_ptr ` {op \<in> set ops. \<not> OpIsDeclaration op}"

text \<open>
  What a part of the walk may do to the state: it mentions no operation but those of
  \<open>E\<close> and those the state already mentions, and it keeps the predecessors of every
  operation outside \<open>A\<close>.
\<close>

definition walk_step ::
  "nat set \<Rightarrow> nat set \<Rightarrow> SideEffectAnalysisInfo \<Rightarrow> SideEffectAnalysisInfo \<Rightarrow> bool" where
  "walk_step E A st st' =
     (sorted_control_predecessors st' = sorted_control_predecessors st \<and>
      sorted_control_successors st' = sorted_control_successors st \<and>
      tracked_ops st' \<subseteq> tracked_ops st \<union> E \<and>
      pred_keys st' \<subseteq> pred_keys st \<union> E \<and>
      (\<forall>q. preds_of st' q \<subseteq> preds_of st q \<union> tracked_ops st \<union> E) \<and>
      (\<forall>q. q \<notin> A \<longrightarrow>
         map_of (control_predecessors st') q = map_of (control_predecessors st) q))"

text \<open>
  The raw predecessor map as a container: the keys of the map are distinct, and so are the
  elements of every set.
\<close>

definition wf_preds :: "SideEffectAnalysisInfo \<Rightarrow> bool" where
  "wf_preds st =
     (distinct (map fst (control_predecessors st)) \<and>
      (\<forall>q. distinct (find_or [] (control_predecessors st) q)))"

text \<open>
  What the first loop of \<^verbatim>\<open>AnalyzeFunction\<close> does, for one entry of the raw map, to
  the map of predecessor lists and to the map of successor lists.
\<close>

definition add_predecessors ::
  "nat \<times> nat list \<Rightarrow> (nat \<times> nat list) list \<Rightarrow> (nat \<times> nat list) list" where
  "add_predecessors entry m =
     fold (\<lambda>predecessor. push_back (fst entry) predecessor) (snd entry)
       (AList.update (fst entry) (find_or [] m (fst entry)) m)"

definition add_successors ::
  "nat \<times> nat list \<Rightarrow> (nat \<times> nat list) list \<Rightarrow> (nat \<times> nat list) list" where
  "add_successors entry m =
     fold (\<lambda>predecessor. push_back predecessor (fst entry)) (snd entry) m"

subsection \<open>Example inputs\<close>

text \<open>Concrete operations and states on which the theorems below are instantiated.\<close>

text \<open>Concrete operations and states on which the theorems below are instantiated.\<close>

definition ex_before :: "nat \<Rightarrow> nat \<Rightarrow> bool" where
  "ex_before a b = (a < b)"

definition ex_op :: "nat \<Rightarrow> XlaResourceOpKind option \<Rightarrow> Value list \<Rightarrow> Operation" where
  "ex_op p kind operands = Operation p OtherOp True kind True operands [] []"

definition ex_state :: SideEffectAnalysisInfo where
  "ex_state =
     empty_analysis\<lparr>per_resource_access_info :=
       [(7, (written_by 1)\<lparr>reads_since_last_write := [2, 3]\<rparr>), (8, written_by 4)]\<rparr>"

text \<open>
  A function body: a declaration, a write to the unknown resource, a write of resource 9,
  and a write, two reads and a write of resource 7; the last operation holds a nested
  region.
\<close>

definition ex_program :: Region where
  "ex_program =
     [[Operation 0 VarHandleOp True None False [] [Value True False [7]] [],
       ex_op 1 None [],
       ex_op 8 (Some kWrite) [Value True False [9]],
       ex_op 2 (Some kWrite) [Value True False [7]],
       ex_op 3 (Some kRead) [Value True False [7]],
       ex_op 4 (Some kRead) [Value True False [7]],
       Operation 5 OtherOp True (Some kWrite) True [Value True False [7]] []
         [[[ex_op 6 (Some kWrite) [Value True False [8]],
            ex_op 7 (Some kReadWrite) [Value True False [8]]]]]]]"

text \<open>The state that \<^verbatim>\<open>AnalyzeFunction\<close> leaves for the example.\<close>

definition ex_graph :: SideEffectAnalysisInfo where
  "ex_graph =
     \<lparr>per_resource_access_info =
        [(kUnknownResourceId, written_by 1), (9, written_by 8), (7, written_by 5)],
      control_predecessors = [],
      sorted_control_predecessors =
        [(8, [1]), (2, [1]), (3, [2]), (4, [2]), (7, [6]), (5, [3, 4])],
      sorted_control_successors =
        [(1, [2, 8]), (2, [3, 4]), (6, [7]), (4, [5]), (3, [5])]\<rparr>"

text \<open>A write to the unknown resource followed by two writes of resource 7.\<close>

definition ex_two_writes :: Region where
  "ex_two_writes =
     [[ex_op 1 None [],
       ex_op 2 (Some kWrite) [Value True False [7]],
       ex_op 3 (Some kWrite) [Value True False [7]]]]"

text \<open>The state that \<^verbatim>\<open>AnalyzeFunction\<close> leaves for it.\<close>

definition ex_two_writes_graph :: SideEffectAnalysisInfo where
  "ex_two_writes_graph =
     \<lparr>per_resource_access_info = [(kUnknownResourceId, written_by 1), (7, written_by 3)],
      control_predecessors = [],
      sorted_control_predecessors = [(2, [1]), (3, [2])],
      sorted_control_successors = [(1, [2]), (2, [3])]\<rparr>"

section \<open>Properties\<close>

subsection \<open>Containers and resource sets\<close>

lemma find_or_update: "find_or d (AList.update k v m) k' = (if k' = k then v else find_or d m k')"
  by (simp add: find_or_def update_conv')

lemma find_or_map_entries:
  "find_or d (map (\<lambda>(k, e). (k, f e)) m) k = (case map_of m k of None \<Rightarrow> d | Some e \<Rightarrow> f e)"
  by (simp add: find_or_def map_of_map split: option.splits)

lemma set_fold_insert: "set (fold List.insert xs ys) = set xs \<union> set ys"
  by (induction xs arbitrary: ys) auto

lemma distinct_fold_insert: "distinct ys \<Longrightarrow> distinct (fold List.insert xs ys)"
  by (induction xs arbitrary: ys) auto

lemma insert_resources_None:
  "insert_resources vs acc = None \<longleftrightarrow> (\<exists>v \<in> set vs. IsUnknownResource v)"
  by (induction vs arbitrary: acc) auto

lemma insert_resources_Some:
  "insert_resources vs acc = Some r \<Longrightarrow>
     set r = set acc \<union> (\<Union>v \<in> set vs. set (GetResourceUniqueIds v))"
  by (induction vs arbitrary: acc) (auto simp: set_fold_insert split: if_splits)

lemma insert_resources_distinct:
  "insert_resources vs acc = Some r \<Longrightarrow> distinct acc \<Longrightarrow> distinct r"
  by (induction vs arbitrary: acc) (auto simp: distinct_fold_insert split: if_splits)

lemma distinct_FindAccessedResources: "distinct (FindAccessedResources op)"
  by (auto simp: FindAccessedResources_def UnknownResourceSet_def
      split: option.splits dest: insert_resources_distinct)

lemma FindAccessedResources_nonempty:
  "has_resolved_resource op \<Longrightarrow> FindAccessedResources op \<noteq> []"
proof -
  assume h: "has_resolved_resource op"
  show ?thesis
  proof (cases "insert_resources (filter_resources (getOperands op)) []")
    case None
    then show ?thesis by (simp add: FindAccessedResources_def UnknownResourceSet_def)
  next
    case (Some r1)
    note s1 = this
    show ?thesis
    proof (cases "insert_resources (filter_resources (getResults op)) r1")
      case None
      with s1 show ?thesis by (simp add: FindAccessedResources_def UnknownResourceSet_def)
    next
      case (Some r2)
      from s1 have n1: "\<forall>v \<in> set (filter_resources (getOperands op)). \<not> IsUnknownResource v"
        using insert_resources_None[of "filter_resources (getOperands op)" "[]"] by auto
      from Some have n2: "\<forall>v \<in> set (filter_resources (getResults op)). \<not> IsUnknownResource v"
        using insert_resources_None[of "filter_resources (getResults op)" r1] by auto
      have e1: "set r1 = (\<Union>v \<in> set (filter_resources (getOperands op)). set (GetResourceUniqueIds v))"
        using insert_resources_Some[OF s1] by simp
      have e2: "set r2 = set r1 \<union> (\<Union>v \<in> set (filter_resources (getResults op)). set (GetResourceUniqueIds v))"
        using insert_resources_Some[OF Some] by simp
      from h n1 n2 obtain v where
        v: "v \<in> set (filter_resources (getOperands op)) \<union> set (filter_resources (getResults op))"
           "GetResourceUniqueIds v \<noteq> []"
        by (auto simp: has_resolved_resource_def)
      then obtain x where "x \<in> set (GetResourceUniqueIds v)" by (cases "GetResourceUniqueIds v") auto
      with v e1 e2 have "x \<in> set r2" by auto
      then have "r2 \<noteq> []" by auto
      with s1 Some show ?thesis by (simp add: FindAccessedResources_def)
    qed
  qed
qed

lemma analyze_op_Inl: "analyze_op op st = Inl e \<longleftrightarrow> assertion_fails_at op"
  by (cases e) (auto simp: analyze_op_def assertion_fails_at_def accessed_resources_def
      UnknownResourceSet_def Let_def)

lemma analyze_op_Inr: "(\<exists>st'. analyze_op op st = Inr st') \<longleftrightarrow> \<not> assertion_fails_at op"
  using analyze_op_Inl [of op st] by (cases "analyze_op op st") auto

lemma resolved_resource:
  "has_resource_value op \<Longrightarrow> alias_ids_known op \<Longrightarrow> has_resolved_resource op"
proof -
  assume h: "has_resource_value op" and a: "alias_ids_known op"
  from h obtain v where
    "v \<in> set (filter_resources (getOperands op) @ filter_resources (getResults op))"
    unfolding has_resource_value_def
    by (cases "filter_resources (getOperands op) @ filter_resources (getResults op)") auto
  with a show ?thesis unfolding alias_ids_known_def has_resolved_resource_def by blast
qed

subsection \<open>The assertion of the walker\<close>

text \<open>The walk returns a state exactly when the assertion fails at none of its operations.\<close>

lemma Analyze_returns:
  "(\<forall>op \<in> set (region_ops r). \<not> assertion_fails_at op) \<Longrightarrow>
     \<exists>st'. AnalyzeRegion r st = Inr st'"
  "(\<forall>op \<in> set (block_ops b). \<not> assertion_fails_at op) \<Longrightarrow>
     \<exists>st'. AnalyzeBlock b st = Inr st'"
  "(\<forall>op \<in> set (operation_ops x). \<not> assertion_fails_at op) \<Longrightarrow>
     \<exists>st'. AnalyzeOperation x st = Inr st'"
  "(\<forall>op \<in> set (children_ops cs). \<not> assertion_fails_at op) \<Longrightarrow>
     \<exists>st'. AnalyzeChildren cs st = Inr st'"
proof (induction r st and b st and x st and cs st
    rule: AnalyzeRegion_AnalyzeBlock_AnalyzeOperation_AnalyzeChildren.induct)
  case (1 st)
  then show ?case by simp
next
  case (2 block blocks st)
  from 2(3) obtain st1 where s1: "AnalyzeBlock block st = Inr st1" using 2(1) by auto
  from 2(3) obtain st2 where "AnalyzeRegion blocks st1 = Inr st2" using 2(2)[OF s1] by auto
  with s1 show ?case by simp
next
  case (3 st)
  then show ?case by simp
next
  case (4 op ops st)
  from 4(3) obtain st1 where s1: "AnalyzeOperation op st = Inr st1" using 4(1) by auto
  from 4(3) obtain st2 where "AnalyzeBlock ops st1 = Inr st2" using 4(2)[OF s1] by auto
  with s1 show ?case by simp
next
  case (5 p c d i s operands results regions st)
  let ?op = "Operation p c d i s operands results regions"
  from 5(2) obtain st1 where s1: "AnalyzeChildren regions st = Inr st1" using 5(1) by auto
  from 5(2) have "\<not> assertion_fails_at ?op" by simp
  then obtain st2 where "analyze_op ?op st1 = Inr st2"
    using analyze_op_Inr [of ?op st1] by blast
  with s1 show ?case by simp
next
  case (6 st)
  then show ?case by simp
next
  case (7 child children st)
  from 7(3) obtain ch where s1: "AnalyzeRegion child empty_analysis = Inr ch" using 7(1) by auto
  from 7(3) obtain st2 where "AnalyzeChildren children (move_child_predecessors ch st) = Inr st2"
    using 7(2)[OF s1] by auto
  with s1 show ?case by simp
qed

lemma Analyze_returned:
  "AnalyzeRegion r st = Inr st' \<Longrightarrow> \<forall>op \<in> set (region_ops r). \<not> assertion_fails_at op"
  "AnalyzeBlock b st = Inr st' \<Longrightarrow> \<forall>op \<in> set (block_ops b). \<not> assertion_fails_at op"
  "AnalyzeOperation x st = Inr st' \<Longrightarrow> \<forall>op \<in> set (operation_ops x). \<not> assertion_fails_at op"
  "AnalyzeChildren cs st = Inr st' \<Longrightarrow> \<forall>op \<in> set (children_ops cs). \<not> assertion_fails_at op"
proof (induction r st and b st and x st and cs st arbitrary: st' and st' and st' and st'
    rule: AnalyzeRegion_AnalyzeBlock_AnalyzeOperation_AnalyzeChildren.induct)
  case (1 st)
  then show ?case by simp
next
  case (2 block blocks st)
  from 2(3) obtain st1 where s1: "AnalyzeBlock block st = Inr st1"
    and s2: "AnalyzeRegion blocks st1 = Inr st'"
    by (auto split: sum.splits)
  from 2(1) [OF s1] 2(2) [OF s1 s2] show ?case by auto
next
  case (3 st)
  then show ?case by simp
next
  case (4 op ops st)
  from 4(3) obtain st1 where s1: "AnalyzeOperation op st = Inr st1"
    and s2: "AnalyzeBlock ops st1 = Inr st'"
    by (auto split: sum.splits)
  from 4(1) [OF s1] 4(2) [OF s1 s2] show ?case by auto
next
  case (5 p c d i s operands results regions st)
  let ?op = "Operation p c d i s operands results regions"
  from 5(2) obtain st1 where s1: "AnalyzeChildren regions st = Inr st1"
    and s2: "analyze_op ?op st1 = Inr st'"
    by (auto split: sum.splits)
  from s2 have "\<not> assertion_fails_at ?op" using analyze_op_Inr [of ?op st1] by blast
  with 5(1) [OF s1] show ?case by simp
next
  case (6 st)
  then show ?case by simp
next
  case (7 child children st)
  from 7(3) obtain ch where s1: "AnalyzeRegion child empty_analysis = Inr ch"
    and s2: "AnalyzeChildren children (move_child_predecessors ch st) = Inr st'"
    by (auto split: sum.splits)
  from 7(1) [OF s1] 7(2) [OF s1 s2] show ?case by auto
qed

lemma AnalyzeRegion_fails:
  "AnalyzeRegion r st = Inl AssertionFailure \<longleftrightarrow>
     (\<exists>op \<in> set (region_ops r). assertion_fails_at op)"
proof
  assume "AnalyzeRegion r st = Inl AssertionFailure"
  then have "\<not> (\<exists>st'. AnalyzeRegion r st = Inr st')" by simp
  with Analyze_returns(1) [of r st] show "\<exists>op \<in> set (region_ops r). assertion_fails_at op"
    by blast
next
  assume f: "\<exists>op \<in> set (region_ops r). assertion_fails_at op"
  show "AnalyzeRegion r st = Inl AssertionFailure"
  proof (cases "AnalyzeRegion r st")
    case (Inl e)
    then show ?thesis by (cases e) simp
  next
    case (Inr st')
    with Analyze_returned(1) [OF Inr] f show ?thesis by blast
  qed
qed

subsection \<open>The tracker\<close>

text \<open>
  Claim C3. \<^verbatim>\<open>AddPredecessorsForAccess(resourceId, op, isRead)\<close> returns the state
  unchanged when the resource has no access record. When a record exists, the
  predecessors of \<open>op\<close> become the former ones, together with every entry of the
  record's \<open>reads_since_last_write\<close> when the access is a write, and together with
  the record's \<open>last_write\<close> exactly when it exists and this call added no reads
  (the access is a read, or there are no reads since the last write). The predecessors of
  every other operation and the access records stay as they are.
\<close>
theorem AddPredecessorsForAccess_contract:
  "(map_of (per_resource_access_info st) r = None \<longrightarrow>
      AddPredecessorsForAccess r op read_only st = st) \<and>
   (\<forall>info. map_of (per_resource_access_info st) r = Some info \<longrightarrow>
      set (find_or [] (control_predecessors (AddPredecessorsForAccess r op read_only st)) op) =
        set (find_or [] (control_predecessors st) op) \<union>
        (if read_only then {} else set (reads_since_last_write info)) \<union>
        (if read_only \<or> reads_since_last_write info = [] then set_option (last_write info) else {}) \<and>
      (\<forall>q. q \<noteq> op \<longrightarrow>
         map_of (control_predecessors (AddPredecessorsForAccess r op read_only st)) q =
         map_of (control_predecessors st) q) \<and>
      per_resource_access_info (AddPredecessorsForAccess r op read_only st) =
        per_resource_access_info st)"
  by (auto simp: AddPredecessorsForAccess_def Let_def find_or_update set_fold_insert update_conv'
      split: option.splits)

theorem AddPredecessorsForAccess_contract_witness:
  "map_of (per_resource_access_info ex_state) 7 =
     Some ((written_by 1)\<lparr>reads_since_last_write := [2, 3]\<rparr>) \<and>
   set (find_or [] (control_predecessors (AddPredecessorsForAccess 7 5 False ex_state)) 5) = {2, 3} \<and>
   set (find_or [] (control_predecessors (AddPredecessorsForAccess 7 5 True ex_state)) 5) = {1} \<and>
   set (find_or [] (control_predecessors (AddPredecessorsForAccess 8 5 False ex_state)) 5) = {4} \<and>
   map_of (per_resource_access_info ex_state) 9 = None \<and>
   AddPredecessorsForAccess 9 5 False ex_state = ex_state"
  using AddPredecessorsForAccess_contract [of ex_state 7 5 False]
    AddPredecessorsForAccess_contract [of ex_state 7 5 True]
    AddPredecessorsForAccess_contract [of ex_state 8 5 False]
    AddPredecessorsForAccess_contract [of ex_state 9 5 False]
  by (simp add: ex_state_def written_by_def empty_analysis_def find_or_def)

text \<open>
  Claim C4. The indirectly-tracked predicate is false for a resource without a record;
  for a read-only access it is the record's \<open>tracked_last_unknown_write_for_read\<close>
  flag; for a write access it holds iff \<open>tracked_last_unknown_write_for_write\<close> is
  set and \<open>tracked_last_unknown_read\<close> is set or the unknown resource has no pending
  reads.
\<close>
theorem indirectly_tracked_predicate:
  "(map_of (per_resource_access_info st) r = None \<longrightarrow>
      \<not> unknown_access_indirectly_tracked_by_resource st r read_only) \<and>
   (\<forall>info. map_of (per_resource_access_info st) r = Some info \<longrightarrow>
      (unknown_access_indirectly_tracked_by_resource st r True \<longleftrightarrow>
         tracked_last_unknown_write_for_read info) \<and>
      (unknown_access_indirectly_tracked_by_resource st r False \<longleftrightarrow>
         tracked_last_unknown_write_for_write info \<and>
         (tracked_last_unknown_read info \<or> pending_unknown_reads st = [])))"
  by (auto simp: unknown_access_indirectly_tracked_by_resource_def pending_unknown_reads_def
      find_or_def new_access_info_def split: option.splits)

theorem indirectly_tracked_predicate_witness:
  "map_of (per_resource_access_info ex_state) 9 = None \<and>
   \<not> unknown_access_indirectly_tracked_by_resource ex_state 9 False \<and>
   map_of (per_resource_access_info ex_state) 8 = Some (written_by 4) \<and>
   unknown_access_indirectly_tracked_by_resource ex_state 8 True \<and>
   unknown_access_indirectly_tracked_by_resource ex_state 8 False"
  using indirectly_tracked_predicate [of ex_state 9 False]
    indirectly_tracked_predicate [of ex_state 8 False]
  by (simp add: ex_state_def written_by_def empty_analysis_def)

text \<open>
  Claim C8. For every resource id (the unknown one included),
  \<^verbatim>\<open>TrackAccess(r, op, read)\<close> leaves a record for \<open>r\<close> whose
  \<open>reads_since_last_write\<close> is the former list with \<open>op\<close> appended, whose
  \<open>tracked_last_unknown_write_for_write\<close> is true and whose
  \<open>tracked_last_unknown_write_for_read\<close> is what it was (false for a new record).
\<close>
theorem TrackAccess_read_only:
  "map_of (per_resource_access_info (TrackAccess r op True st)) r \<noteq> None \<and>
   reads_since_last_write
       (find_or new_access_info (per_resource_access_info (TrackAccess r op True st)) r) =
     reads_since_last_write (find_or new_access_info (per_resource_access_info st) r) @ [op] \<and>
   tracked_last_unknown_write_for_write
       (find_or new_access_info (per_resource_access_info (TrackAccess r op True st)) r) \<and>
   tracked_last_unknown_write_for_read
       (find_or new_access_info (per_resource_access_info (TrackAccess r op True st)) r) =
     tracked_last_unknown_write_for_read
       (find_or new_access_info (per_resource_access_info st) r)"
  by (simp add: TrackAccess_def Let_def find_or_update find_or_map_entries update_conv')
     (simp add: find_or_def new_access_info_def split: option.splits)

lemma TrackAccess_unknown_write:
  "per_resource_access_info (TrackAccess kUnknownResourceId op False st) =
     [(kUnknownResourceId,
       \<lparr>last_write = Some op, reads_since_last_write = [],
        tracked_last_unknown_read = True,
        tracked_last_unknown_write_for_read = True,
        tracked_last_unknown_write_for_write = True\<rparr>)]"
  by (simp add: TrackAccess_def Let_def find_or_def new_access_info_def)

subsection \<open>Classification of one operation\<close>

text \<open>
  Claim C7. An operation for which the resource operation table has no verdict, and which
  is skipped neither as a declaration nor as free of side effects, is analysed with the
  resource set \<open>{UNKNOWN}\<close> and as a write: it is not read-only, and after it the only
  access record is the one of the unknown resource, with the operation as last write.
\<close>
theorem unclassified_op_is_unknown_write:
  "GetResourceInfoForOp op = None \<Longrightarrow> \<not> OpIsDeclaration op \<Longrightarrow>
   \<not> OpIsKnownToHaveNoSideEffect op \<Longrightarrow>
     accessed_resources op = [kUnknownResourceId] \<and>
     \<not> OpIsReadOnly op \<and>
     analyze_op op st = Inr (emit_edges [kUnknownResourceId] (op_ptr op) False st) \<and>
     per_resource_access_info (emit_edges [kUnknownResourceId] (op_ptr op) False st) =
       [(kUnknownResourceId,
         \<lparr>last_write = Some (op_ptr op), reads_since_last_write = [],
          tracked_last_unknown_read = True,
          tracked_last_unknown_write_for_read = True,
          tracked_last_unknown_write_for_write = True\<rparr>)]"
  by (simp add: accessed_resources_def UnknownResourceSet_def OpIsReadOnly_def analyze_op_def
      emit_edges_def Let_def TrackAccess_unknown_write split: prod.splits)

theorem unclassified_op_is_unknown_write_witness:
  "GetResourceInfoForOp (ex_op 5 None []) = None \<and>
   \<not> OpIsDeclaration (ex_op 5 None []) \<and>
   \<not> OpIsKnownToHaveNoSideEffect (ex_op 5 None []) \<and>
   accessed_resources (ex_op 5 None []) = [kUnknownResourceId] \<and>
   \<not> OpIsReadOnly (ex_op 5 None []) \<and>
   (case analyze_op (ex_op 5 None []) ex_state of
      Inl e \<Rightarrow> []
    | Inr st \<Rightarrow> map fst (per_resource_access_info st)) = [kUnknownResourceId]"
proof -
  have a: "GetResourceInfoForOp (ex_op 5 None []) = None"
    by (simp add: GetResourceInfoForOp_def ex_op_def)
  have b: "\<not> OpIsDeclaration (ex_op 5 None [])"
    by (simp add: OpIsDeclaration_def ex_op_def)
  have c: "\<not> OpIsKnownToHaveNoSideEffect (ex_op 5 None [])"
    by (simp add: OpIsKnownToHaveNoSideEffect_def ex_op_def)
  show ?thesis
    using a b c unclassified_op_is_unknown_write [OF a b c, of ex_state] by simp
qed

text \<open>
  Claim C9. The alias analysis answers, for every resource operand and result, either
  unknown or a set with at least one id. Then, in a region where every operation that
  the table classifies and that is not a declaration has at least one resource operand
  or result, every operation that reaches the computation of the resource set has a
  non-empty set, the analysis of the region returns a state, and so the assertion never
  fires. The assertion is as the source has it, compiled in: for any region, the analysis
  fails with it exactly when the region, nested regions included, holds an operation that
  is not a declaration, is classified and has an empty resource set, so that no state is
  ever returned from an empty set.
\<close>

theorem assertion_never_fires:
  assumes ids: "\<forall>op \<in> set (region_ops region). alias_ids_known op"
    and pre: "\<forall>op \<in> set (region_ops region).
        GetResourceInfoForOp op \<noteq> None \<longrightarrow> \<not> OpIsDeclaration op \<longrightarrow> has_resource_value op"
  shows "(\<forall>op \<in> set (region_ops region).
            \<not> OpIsDeclaration op \<longrightarrow> accessed_resources op \<noteq> []) \<and>
         (\<exists>st'. AnalyzeRegion region st = Inr st') \<and>
         AnalyzeRegion region st \<noteq> Inl AssertionFailure \<and>
         (\<forall>r s. AnalyzeRegion r s = Inl AssertionFailure \<longleftrightarrow>
            (\<exists>op \<in> set (region_ops r).
               \<not> OpIsDeclaration op \<and> GetResourceInfoForOp op \<noteq> None \<and>
               accessed_resources op = []))"
proof -
  have ne: "accessed_resources op \<noteq> []"
    if "op \<in> set (region_ops region)" "\<not> OpIsDeclaration op" for op
  proof (cases "GetResourceInfoForOp op = None")
    case True
    then show ?thesis by (simp add: accessed_resources_def UnknownResourceSet_def)
  next
    case False
    with that pre have "has_resource_value op" by blast
    moreover from that ids have "alias_ids_known op" by blast
    ultimately have "FindAccessedResources op \<noteq> []"
      by (intro FindAccessedResources_nonempty resolved_resource)
    with False show ?thesis by (simp add: accessed_resources_def)
  qed
  then have "\<forall>op \<in> set (region_ops region). \<not> assertion_fails_at op"
    by (auto simp: assertion_fails_at_def)
  from Analyze_returns(1) [OF this, of st] obtain st' where
    r: "AnalyzeRegion region st = Inr st'" by blast
  have "AnalyzeRegion r s = Inl AssertionFailure \<longleftrightarrow>
      (\<exists>op \<in> set (region_ops r).
         \<not> OpIsDeclaration op \<and> GetResourceInfoForOp op \<noteq> None \<and> accessed_resources op = [])"
    for r s
    using AnalyzeRegion_fails [of r s] by (simp add: assertion_fails_at_def)
  with ne r show ?thesis by simp
qed

theorem assertion_never_fires_witness:
  "alias_ids_known (ex_op 1 (Some kWrite) [Value True False [7]]) \<and>
   GetResourceInfoForOp (ex_op 1 (Some kWrite) [Value True False [7]]) = Some kWrite \<and>
   \<not> OpIsDeclaration (ex_op 1 (Some kWrite) [Value True False [7]]) \<and>
   has_resource_value (ex_op 1 (Some kWrite) [Value True False [7]]) \<and>
   accessed_resources (ex_op 1 (Some kWrite) [Value True False [7]]) = [7] \<and>
   (\<exists>st'. AnalyzeRegion [[ex_op 1 (Some kWrite) [Value True False [7]]]] empty_analysis =
      Inr st') \<and>
   GetResourceInfoForOp (ex_op 2 (Some kWrite) []) = Some kWrite \<and>
   \<not> has_resource_value (ex_op 2 (Some kWrite) []) \<and>
   AnalyzeRegion [[ex_op 2 (Some kWrite) []]] empty_analysis = Inl AssertionFailure"
proof -
  let ?op = "ex_op 1 (Some kWrite) [Value True False [7]]"
  let ?bad = "ex_op 2 (Some kWrite) []"
  have a: "alias_ids_known ?op"
    by (simp add: alias_ids_known_def ex_op_def filter_resources_def)
  have k: "GetResourceInfoForOp ?op = Some kWrite" "GetResourceInfoForOp ?bad = Some kWrite"
    by (simp_all add: GetResourceInfoForOp_def ex_op_def)
  have d: "\<not> OpIsDeclaration ?op" "\<not> OpIsDeclaration ?bad"
    by (simp_all add: OpIsDeclaration_def ex_op_def)
  have h: "has_resource_value ?op" "\<not> has_resource_value ?bad"
    by (simp_all add: has_resource_value_def ex_op_def filter_resources_def)
  have f: "accessed_resources ?op = [7]" "accessed_resources ?bad = []"
    by (simp_all add: accessed_resources_def GetResourceInfoForOp_def FindAccessedResources_def
        ex_op_def filter_resources_def)
  have ops: "region_ops [[?op]] = [?op]" "region_ops [[?bad]] = [?bad]"
    by (simp_all add: ex_op_def)
  have ids: "\<forall>op \<in> set (region_ops [[?op]]). alias_ids_known op"
    using a by (simp only: ops) simp
  have pre: "\<forall>op \<in> set (region_ops [[?op]]).
      GetResourceInfoForOp op \<noteq> None \<longrightarrow> \<not> OpIsDeclaration op \<longrightarrow> has_resource_value op"
    using h(1) by (simp only: ops) simp
  note t = assertion_never_fires [OF ids pre, of empty_analysis]
  from t have r: "\<exists>st'. AnalyzeRegion [[?op]] empty_analysis = Inr st'" by blast
  from t have "AnalyzeRegion [[?bad]] empty_analysis = Inl AssertionFailure \<longleftrightarrow>
      (\<exists>op \<in> set (region_ops [[?bad]]).
         \<not> OpIsDeclaration op \<and> GetResourceInfoForOp op \<noteq> None \<and> accessed_resources op = [])"
    by blast
  then have b: "AnalyzeRegion [[?bad]] empty_analysis = Inl AssertionFailure"
    using d(2) k(2) f(2) by (simp only: ops) simp
  from a k d h f r b show ?thesis by simp
qed

subsection \<open>Tracker steps\<close>

lemma AddPred_pai [simp]:
  "per_resource_access_info (AddPredecessorsForAccess r p ro st) = per_resource_access_info st"
  by (simp add: AddPredecessorsForAccess_def Let_def split: option.splits)

lemma AddPred_sorted [simp]:
  "sorted_control_predecessors (AddPredecessorsForAccess r p ro st) = sorted_control_predecessors st"
  "sorted_control_successors (AddPredecessorsForAccess r p ro st) = sorted_control_successors st"
  by (simp_all add: AddPredecessorsForAccess_def Let_def split: option.splits)

lemma AddPred_tracked [simp]:
  "tracked_ops (AddPredecessorsForAccess r p ro st) = tracked_ops st"
  by (simp add: tracked_ops_def)

lemma AddPred_other:
  "q \<noteq> p \<Longrightarrow> map_of (control_predecessors (AddPredecessorsForAccess r p ro st)) q =
     map_of (control_predecessors st) q"
  by (simp add: AddPredecessorsForAccess_def Let_def update_conv' split: option.splits)

lemma AddPred_keys:
  "pred_keys (AddPredecessorsForAccess r p ro st) \<subseteq> insert p (pred_keys st)"
  by (auto simp: pred_keys_def AddPredecessorsForAccess_def Let_def update_conv'
      split: option.splits if_splits)

lemma AddPred_preds_None:
  "map_of (per_resource_access_info st) r = None \<Longrightarrow>
     AddPredecessorsForAccess r p ro st = st"
  by (simp add: AddPredecessorsForAccess_def)

lemma AddPred_preds_Some:
  "map_of (per_resource_access_info st) r = Some info \<Longrightarrow>
     preds_of (AddPredecessorsForAccess r p ro st) p =
       preds_of st p \<union> (if ro then {} else set (reads_since_last_write info)) \<union>
       (if ro \<or> reads_since_last_write info = [] then set_option (last_write info) else {})"
  by (auto simp: preds_of_def AddPredecessorsForAccess_def Let_def find_or_update set_fold_insert
      split: option.splits)

lemma record_ops_tracked:
  "map_of (per_resource_access_info st) r = Some info \<Longrightarrow> record_ops info \<subseteq> tracked_ops st"
  by (auto simp: tracked_ops_def ran_def)

lemma AddPred_preds_subset:
  "preds_of (AddPredecessorsForAccess r p ro st) p \<subseteq>
     preds_of st p \<union> (case map_of (per_resource_access_info st) r of
                          None \<Rightarrow> {} | Some info \<Rightarrow> record_ops info)"
  by (cases "map_of (per_resource_access_info st) r")
     (auto simp: AddPred_preds_None AddPred_preds_Some record_ops_def split: if_splits)

lemma Track_preds [simp]:
  "control_predecessors (TrackAccess r p ro st) = control_predecessors st"
  "sorted_control_predecessors (TrackAccess r p ro st) = sorted_control_predecessors st"
  "sorted_control_successors (TrackAccess r p ro st) = sorted_control_successors st"
  by (simp_all add: TrackAccess_def Let_def)

lemma Track_preds_of [simp]: "preds_of (TrackAccess r p ro st) q = preds_of st q"
  by (simp add: preds_of_def)

lemma Track_pred_keys [simp]: "pred_keys (TrackAccess r p ro st) = pred_keys st"
  by (simp add: pred_keys_def)

lemma Track_known_other:
  "r \<noteq> kUnknownResourceId \<Longrightarrow> r' \<noteq> r \<Longrightarrow>
     map_of (per_resource_access_info (TrackAccess r p ro st)) r' =
     map_of (per_resource_access_info st) r'"
  by (simp add: TrackAccess_def Let_def update_conv')

lemma Track_known_same:
  "r \<noteq> kUnknownResourceId \<Longrightarrow>
     map_of (per_resource_access_info (TrackAccess r p ro st)) r =
       Some (if ro then
               (find_or new_access_info (per_resource_access_info st) r)
                 \<lparr>reads_since_last_write :=
                    reads_since_last_write (find_or new_access_info (per_resource_access_info st) r) @ [p],
                  tracked_last_unknown_write_for_write := True\<rparr>
             else
               \<lparr>last_write = Some p, reads_since_last_write = [],
                tracked_last_unknown_read = True,
                tracked_last_unknown_write_for_read = True,
                tracked_last_unknown_write_for_write = True\<rparr>)"
  by (simp add: TrackAccess_def Let_def update_conv')

lemma record_ops_new [simp]: "record_ops new_access_info = {}"
  by (simp add: record_ops_def new_access_info_def)

lemma ran_update_subset: "ran (m(k \<mapsto> v)) \<subseteq> insert v (ran m)"
  by (auto simp: ran_def split: if_splits)

lemma Track_tracked:
  "tracked_ops (TrackAccess r p ro st) \<subseteq> insert p (tracked_ops st)"
proof -
  let ?m0 = "per_resource_access_info st"
  let ?m1 = "(if r = kUnknownResourceId then
                (if ro then map (\<lambda>(k, entry). (k, entry\<lparr>tracked_last_unknown_read := False\<rparr>)) ?m0
                 else [])
              else ?m0)"
  have m1: "(\<Union>info \<in> ran (map_of ?m1). record_ops info) \<subseteq> tracked_ops st"
    by (auto simp: tracked_ops_def map_of_map ran_def record_ops_def)
  have f: "record_ops (find_or new_access_info ?m1 r) \<subseteq> tracked_ops st"
  proof (cases "map_of ?m1 r")
    case None
    then show ?thesis by (simp add: find_or_def)
  next
    case (Some i)
    then have "i \<in> ran (map_of ?m1)" by (auto simp: ran_def)
    with m1 Some show ?thesis by (auto simp: find_or_def)
  qed
  let ?info = "find_or new_access_info ?m1 r"
  let ?info' = "(if ro then
                   ?info\<lparr>reads_since_last_write := reads_since_last_write ?info @ [p],
                        tracked_last_unknown_write_for_write := True\<rparr>
                 else
                   ?info\<lparr>tracked_last_unknown_write_for_read := True,
                        tracked_last_unknown_write_for_write := True,
                        tracked_last_unknown_read := True,
                        last_write := Some p,
                        reads_since_last_write := []\<rparr>)"
  have i': "record_ops ?info' \<subseteq> insert p (tracked_ops st)"
    using f by (auto simp: record_ops_def)
  have eq: "per_resource_access_info (TrackAccess r p ro st) = AList.update r ?info' ?m1"
    by (simp add: TrackAccess_def Let_def)
  have "ran (map_of (AList.update r ?info' ?m1)) \<subseteq> insert ?info' (ran (map_of ?m1))"
    by (simp add: update_conv' ran_update_subset)
  then have "tracked_ops (TrackAccess r p ro st) \<subseteq>
      record_ops ?info' \<union> (\<Union>info \<in> ran (map_of ?m1). record_ops info)"
    unfolding tracked_ops_def eq by blast
  with i' m1 show ?thesis by blast
qed

lemma resource_ops_tracked: "resource_ops st r \<subseteq> tracked_ops st"
  by (auto simp: resource_ops_def split: option.splits dest: record_ops_tracked)

lemma AddPred_resource_ops [simp]:
  "resource_ops (AddPredecessorsForAccess r p ro st) r' = resource_ops st r'"
  by (simp add: resource_ops_def)

lemma AddPred_preds_resource:
  "preds_of (AddPredecessorsForAccess r p ro st) p \<subseteq> preds_of st p \<union> resource_ops st r"
  using AddPred_preds_subset [of r p ro st] by (simp add: resource_ops_def)

lemma Track_resource_ops_other:
  "r \<noteq> kUnknownResourceId \<Longrightarrow> r' \<noteq> r \<Longrightarrow>
     resource_ops (TrackAccess r p ro st) r' = resource_ops st r'"
  by (simp add: resource_ops_def Track_known_other)

subsection \<open>The two loops of edge emission\<close>

lemma unknown_loop_pai:
  "per_resource_access_info (fst (unknown_access_loop ks p ro (st, tr))) =
     per_resource_access_info st"
  by (induction ks arbitrary: st tr) (simp_all add: Let_def)

lemma unknown_loop_sorted:
  "sorted_control_predecessors (fst (unknown_access_loop ks p ro (st, tr))) =
     sorted_control_predecessors st \<and>
   sorted_control_successors (fst (unknown_access_loop ks p ro (st, tr))) =
     sorted_control_successors st"
  by (induction ks arbitrary: st tr) (simp_all add: Let_def)

lemma unknown_loop_other:
  "q \<noteq> p \<Longrightarrow> map_of (control_predecessors (fst (unknown_access_loop ks p ro (st, tr)))) q =
     map_of (control_predecessors st) q"
  by (induction ks arbitrary: st tr) (simp_all add: Let_def AddPred_other)

lemma unknown_loop_keys:
  "pred_keys (fst (unknown_access_loop ks p ro (st, tr))) \<subseteq> insert p (pred_keys st)"
proof (induction ks arbitrary: st tr)
  case Nil
  then show ?case by auto
next
  case (Cons k ks)
  show ?case
  proof (cases "k = kUnknownResourceId")
    case True
    then show ?thesis using Cons.IH by simp
  next
    case False
    then show ?thesis
      using Cons.IH [of "AddPredecessorsForAccess k p ro st"] AddPred_keys [of k p ro st]
      by (auto simp: Let_def)
  qed
qed

lemma unknown_loop_preds:
  "preds_of (fst (unknown_access_loop ks p ro (st, tr))) p \<subseteq> preds_of st p \<union> tracked_ops st"
proof (induction ks arbitrary: st tr)
  case Nil
  then show ?case by simp
next
  case (Cons k ks)
  show ?case
  proof (cases "k = kUnknownResourceId")
    case True
    then show ?thesis using Cons.IH by simp
  next
    case False
    have "preds_of (AddPredecessorsForAccess k p ro st) p \<subseteq> preds_of st p \<union> tracked_ops st"
      using AddPred_preds_resource [of k p ro st] resource_ops_tracked [of st k] by blast
    then show ?thesis
      using False Cons.IH [of "AddPredecessorsForAccess k p ro st"]
      by (auto simp: Let_def)
  qed
qed

lemma known_loop_sorted:
  "sorted_control_predecessors (fst (known_access_loop rs p ro (st, tr))) =
     sorted_control_predecessors st \<and>
   sorted_control_successors (fst (known_access_loop rs p ro (st, tr))) =
     sorted_control_successors st"
  by (induction rs arbitrary: st tr) (simp_all add: Let_def)

lemma known_loop_other:
  "q \<noteq> p \<Longrightarrow> map_of (control_predecessors (fst (known_access_loop rs p ro (st, tr)))) q =
     map_of (control_predecessors st) q"
  by (induction rs arbitrary: st tr) (simp_all add: Let_def AddPred_other)

lemma known_loop_keys:
  "pred_keys (fst (known_access_loop rs p ro (st, tr))) \<subseteq> insert p (pred_keys st)"
proof (induction rs arbitrary: st tr)
  case Nil
  then show ?case by auto
next
  case (Cons r rs)
  show ?case
    using Cons.IH [of "TrackAccess r p ro (AddPredecessorsForAccess r p ro st)"]
      AddPred_keys [of r p ro st]
    by (auto simp: Let_def)
qed

lemma known_loop_tracked:
  "tracked_ops (fst (known_access_loop rs p ro (st, tr))) \<subseteq> insert p (tracked_ops st)"
proof (induction rs arbitrary: st tr)
  case Nil
  then show ?case by auto
next
  case (Cons r rs)
  show ?case
    using Cons.IH [of "TrackAccess r p ro (AddPredecessorsForAccess r p ro st)"]
      Track_tracked [of r p ro "AddPredecessorsForAccess r p ro st"]
    by (auto simp: Let_def)
qed

lemma known_loop_pai_other:
  "kUnknownResourceId \<notin> set rs \<Longrightarrow> r' \<notin> set rs \<Longrightarrow>
     map_of (per_resource_access_info (fst (known_access_loop rs p ro (st, tr)))) r' =
     map_of (per_resource_access_info st) r'"
  by (induction rs arbitrary: st tr) (auto simp: Let_def Track_known_other)

lemma known_loop_preds:
  "kUnknownResourceId \<notin> set rs \<Longrightarrow> distinct rs \<Longrightarrow>
     preds_of (fst (known_access_loop rs p ro (st, tr))) p \<subseteq>
       preds_of st p \<union> (\<Union>r \<in> set rs. resource_ops st r)"
proof (induction rs arbitrary: st tr)
  case Nil
  then show ?case by simp
next
  case (Cons r rs)
  let ?st1 = "AddPredecessorsForAccess r p ro st"
  let ?st2 = "TrackAccess r p ro ?st1"
  from Cons.prems have r: "r \<noteq> kUnknownResourceId" "r \<notin> set rs"
    and rs: "kUnknownResourceId \<notin> set rs" "distinct rs" by auto
  have same: "resource_ops ?st2 r' = resource_ops st r'" if "r' \<in> set rs" for r'
  proof -
    from that r have "r' \<noteq> r" by auto
    then show ?thesis using r(1) by (simp add: Track_resource_ops_other)
  qed
  have "preds_of (fst (known_access_loop rs p ro (?st2, tr \<or> unknown_access_indirectly_tracked_by_resource ?st1 r ro))) p
          \<subseteq> preds_of ?st2 p \<union> (\<Union>r' \<in> set rs. resource_ops ?st2 r')"
    using Cons.IH [OF rs] by blast
  also have "\<dots> = preds_of ?st1 p \<union> (\<Union>r' \<in> set rs. resource_ops st r')"
    using same by simp
  also have "\<dots> \<subseteq> preds_of st p \<union> resource_ops st r \<union> (\<Union>r' \<in> set rs. resource_ops st r')"
    using AddPred_preds_resource [of r p ro st] by blast
  finally show ?case by (auto simp: Let_def)
qed

subsection \<open>Edge emission for one operation\<close>

lemma emit_edges_unknown:
  "kUnknownResourceId \<in> set rs \<Longrightarrow>
     emit_edges rs p ro st =
       TrackAccess kUnknownResourceId p ro
         (if snd (unknown_access_loop (map fst (per_resource_access_info st)) p ro (st, False))
          then fst (unknown_access_loop (map fst (per_resource_access_info st)) p ro (st, False))
          else AddPredecessorsForAccess kUnknownResourceId p ro
                 (fst (unknown_access_loop (map fst (per_resource_access_info st)) p ro (st, False))))"
  by (simp add: emit_edges_def case_prod_beta)

lemma emit_edges_known:
  "kUnknownResourceId \<notin> set rs \<Longrightarrow>
     emit_edges rs p ro st =
       (if snd (known_access_loop rs p ro (st, False))
        then fst (known_access_loop rs p ro (st, False))
        else AddPredecessorsForAccess kUnknownResourceId p ro
               (fst (known_access_loop rs p ro (st, False))))"
  by (simp add: emit_edges_def case_prod_beta)

lemma emit_edges_sorted:
  "sorted_control_predecessors (emit_edges rs p ro st) = sorted_control_predecessors st \<and>
   sorted_control_successors (emit_edges rs p ro st) = sorted_control_successors st"
proof (cases "kUnknownResourceId \<in> set rs")
  case True
  then show ?thesis by (simp add: emit_edges_unknown unknown_loop_sorted)
next
  case False
  then show ?thesis by (simp add: emit_edges_known known_loop_sorted)
qed

lemma emit_edges_other:
  "q \<noteq> p \<Longrightarrow> map_of (control_predecessors (emit_edges rs p ro st)) q =
     map_of (control_predecessors st) q"
proof (cases "kUnknownResourceId \<in> set rs")
  case True
  assume "q \<noteq> p"
  with True show ?thesis by (simp add: emit_edges_unknown unknown_loop_other AddPred_other)
next
  case False
  assume "q \<noteq> p"
  with False show ?thesis by (simp add: emit_edges_known known_loop_other AddPred_other)
qed

lemma emit_edges_keys:
  "pred_keys (emit_edges rs p ro st) \<subseteq> insert p (pred_keys st)"
proof (cases "kUnknownResourceId \<in> set rs")
  case True
  let ?l = "unknown_access_loop (map fst (per_resource_access_info st)) p ro (st, False)"
  have l: "pred_keys (fst ?l) \<subseteq> insert p (pred_keys st)" by (rule unknown_loop_keys)
  have a: "pred_keys (AddPredecessorsForAccess kUnknownResourceId p ro (fst ?l)) \<subseteq>
      insert p (pred_keys (fst ?l))" by (rule AddPred_keys)
  from l a have "pred_keys (AddPredecessorsForAccess kUnknownResourceId p ro (fst ?l)) \<subseteq>
      insert p (pred_keys st)" by blast
  with l True show ?thesis by (simp add: emit_edges_unknown)
next
  case False
  let ?l = "known_access_loop rs p ro (st, False)"
  have l: "pred_keys (fst ?l) \<subseteq> insert p (pred_keys st)" by (rule known_loop_keys)
  have a: "pred_keys (AddPredecessorsForAccess kUnknownResourceId p ro (fst ?l)) \<subseteq>
      insert p (pred_keys (fst ?l))" by (rule AddPred_keys)
  from l a have "pred_keys (AddPredecessorsForAccess kUnknownResourceId p ro (fst ?l)) \<subseteq>
      insert p (pred_keys st)" by blast
  with l False show ?thesis by (simp add: emit_edges_known)
qed

lemma emit_edges_tracked:
  "tracked_ops (emit_edges rs p ro st) \<subseteq> insert p (tracked_ops st)"
proof (cases "kUnknownResourceId \<in> set rs")
  case True
  let ?l = "unknown_access_loop (map fst (per_resource_access_info st)) p ro (st, False)"
  let ?st2 = "if snd ?l then fst ?l else AddPredecessorsForAccess kUnknownResourceId p ro (fst ?l)"
  have "tracked_ops ?st2 = tracked_ops st"
    by (simp add: tracked_ops_def unknown_loop_pai)
  moreover have "tracked_ops (TrackAccess kUnknownResourceId p ro ?st2) \<subseteq>
      insert p (tracked_ops ?st2)" by (rule Track_tracked)
  ultimately have "tracked_ops (TrackAccess kUnknownResourceId p ro ?st2) \<subseteq>
      insert p (tracked_ops st)" by simp
  then show ?thesis using True by (simp only: emit_edges_unknown)
next
  case False
  then show ?thesis
    using known_loop_tracked [of rs p ro st False] by (simp add: emit_edges_known)
qed

lemma emit_edges_preds:
  assumes "distinct rs"
  shows "preds_of (emit_edges rs p ro st) p \<subseteq> preds_of st p \<union> tracked_ops st"
proof (cases "kUnknownResourceId \<in> set rs")
  case True
  let ?l = "unknown_access_loop (map fst (per_resource_access_info st)) p ro (st, False)"
  have l: "preds_of (fst ?l) p \<subseteq> preds_of st p \<union> tracked_ops st"
    by (rule unknown_loop_preds)
  have t: "tracked_ops (fst ?l) = tracked_ops st"
    by (simp add: tracked_ops_def unknown_loop_pai)
  have "preds_of (AddPredecessorsForAccess kUnknownResourceId p ro (fst ?l)) p \<subseteq>
      preds_of (fst ?l) p \<union> tracked_ops (fst ?l)"
    using AddPred_preds_resource [of kUnknownResourceId p ro "fst ?l"]
      resource_ops_tracked [of "fst ?l" kUnknownResourceId] by blast
  with l t have a: "preds_of (AddPredecessorsForAccess kUnknownResourceId p ro (fst ?l)) p \<subseteq>
      preds_of st p \<union> tracked_ops st" by blast
  show ?thesis
    using True l a by (simp add: emit_edges_unknown)
next
  case False
  let ?l = "known_access_loop rs p ro (st, False)"
  have l: "preds_of (fst ?l) p \<subseteq> preds_of st p \<union> tracked_ops st"
    using known_loop_preds [OF False assms, of p ro st False] resource_ops_tracked [of st]
    by blast
  have "resource_ops (fst ?l) kUnknownResourceId = resource_ops st kUnknownResourceId"
    using known_loop_pai_other [OF False False, of p ro st False]
    by (simp add: resource_ops_def)
  then have "preds_of (AddPredecessorsForAccess kUnknownResourceId p ro (fst ?l)) p \<subseteq>
      preds_of (fst ?l) p \<union> tracked_ops st"
    using AddPred_preds_resource [of kUnknownResourceId p ro "fst ?l"]
      resource_ops_tracked [of st kUnknownResourceId] by auto
  with l have a: "preds_of (AddPredecessorsForAccess kUnknownResourceId p ro (fst ?l)) p \<subseteq>
      preds_of st p \<union> tracked_ops st" by blast
  show ?thesis
    using False l a by (simp add: emit_edges_known)
qed

subsection \<open>What the walk mentions\<close>

lemma preds_of_cong:
  "map_of (control_predecessors st') q = map_of (control_predecessors st) q \<Longrightarrow>
     preds_of st' q = preds_of st q"
  by (simp add: preds_of_def find_or_def)

lemma walk_step_refl: "walk_step E A st st"
  by (auto simp: walk_step_def)

lemma walk_step_trans:
  assumes "walk_step E1 A1 st st1" and "walk_step E2 A2 st1 st2"
  shows "walk_step (E1 \<union> E2) (A1 \<union> A2) st st2"
proof -
  have p: "preds_of st2 q \<subseteq> preds_of st q \<union> tracked_ops st \<union> (E1 \<union> E2)" for q
  proof -
    have "preds_of st2 q \<subseteq> preds_of st1 q \<union> tracked_ops st1 \<union> E2"
      using assms(2) by (simp add: walk_step_def)
    moreover have "preds_of st1 q \<subseteq> preds_of st q \<union> tracked_ops st \<union> E1"
      using assms(1) by (simp add: walk_step_def)
    moreover have "tracked_ops st1 \<subseteq> tracked_ops st \<union> E1"
      using assms(1) by (simp add: walk_step_def)
    ultimately show ?thesis by blast
  qed
  have t: "tracked_ops st2 \<subseteq> tracked_ops st \<union> (E1 \<union> E2)"
    using assms by (simp add: walk_step_def) blast
  have k: "pred_keys st2 \<subseteq> pred_keys st \<union> (E1 \<union> E2)"
    using assms by (simp add: walk_step_def) blast
  have f: "q \<notin> A1 \<union> A2 \<longrightarrow>
      map_of (control_predecessors st2) q = map_of (control_predecessors st) q" for q
    using assms by (simp add: walk_step_def)
  have s: "sorted_control_predecessors st2 = sorted_control_predecessors st \<and>
      sorted_control_successors st2 = sorted_control_successors st"
    using assms by (simp add: walk_step_def)
  show ?thesis
    unfolding walk_step_def using p t k f s by blast
qed

lemma distinct_accessed_resources: "distinct (accessed_resources op)"
  by (simp add: accessed_resources_def distinct_FindAccessedResources UnknownResourceSet_def)

lemma emit_edges_walk_step:
  assumes "distinct rs"
  shows "walk_step {p} {p} st (emit_edges rs p ro st)"
proof -
  have "preds_of (emit_edges rs p ro st) q \<subseteq> preds_of st q \<union> tracked_ops st \<union> {p}" for q
  proof (cases "q = p")
    case True
    then show ?thesis using emit_edges_preds [OF assms, of p ro st] by blast
  next
    case False
    then show ?thesis using preds_of_cong [OF emit_edges_other [OF False, of rs ro st]] by auto
  qed
  then show ?thesis
    unfolding walk_step_def
    using emit_edges_sorted [of rs p ro st] emit_edges_tracked [of rs p ro st]
      emit_edges_keys [of rs p ro st] emit_edges_other [of _ p rs ro st]
    by auto
qed

lemma analyze_op_cases:
  "analyze_op op st = Inr st' \<Longrightarrow>
     st' = st \<or>
     (\<not> OpIsDeclaration op \<and>
      st' = emit_edges (accessed_resources op) (op_ptr op) (OpIsReadOnly op) st)"
  by (auto simp: analyze_op_def Let_def split: if_splits)

lemma analyze_op_walk_step:
  assumes "analyze_op op st = Inr st'"
  shows "walk_step (effect_ptrs [op]) {op_ptr op} st st'"
proof -
  from analyze_op_cases [OF assms] show ?thesis
  proof
    assume "st' = st"
    then show ?thesis by (simp add: walk_step_refl)
  next
    assume a: "\<not> OpIsDeclaration op \<and>
      st' = emit_edges (accessed_resources op) (op_ptr op) (OpIsReadOnly op) st"
    then have "effect_ptrs [op] = {op_ptr op}" by (auto simp: effect_ptrs_def)
    with a show ?thesis
      using emit_edges_walk_step [OF distinct_accessed_resources [of op], of "op_ptr op" st "OpIsReadOnly op"]
      by simp
  qed
qed

lemma effect_ptrs_append [simp]: "effect_ptrs (xs @ ys) = effect_ptrs xs \<union> effect_ptrs ys"
  by (auto simp: effect_ptrs_def)

lemma effect_ptrs_subset: "effect_ptrs ops \<subseteq> op_ptr ` set ops"
  by (auto simp: effect_ptrs_def)

lemma map_of_fold_update:
  "map_of (fold (\<lambda>entry m. AList.update (fst entry) (snd entry) m) xs m0) =
     map_of m0 ++ map_of (rev xs)"
proof (induction xs arbitrary: m0)
  case Nil
  then show ?case by simp
next
  case (Cons x xs)
  have "map_of (AList.update (fst x) (snd x) m0) ++ map_of (rev xs) =
      map_of m0 ++ (map_of [x] ++ map_of (rev xs))"
    by (cases x) (simp add: update_conv' map_add_upd_left fun_eq_iff map_add_def split: option.splits)
  then show ?case using Cons.IH by simp
qed

lemma move_child_map:
  "map_of (control_predecessors (move_child_predecessors c st)) =
     map_of (control_predecessors st) ++ map_of (rev (control_predecessors c))"
  by (simp add: move_child_predecessors_def map_of_fold_update)

lemma move_child_same [simp]:
  "per_resource_access_info (move_child_predecessors c st) = per_resource_access_info st"
  "sorted_control_predecessors (move_child_predecessors c st) = sorted_control_predecessors st"
  "sorted_control_successors (move_child_predecessors c st) = sorted_control_successors st"
  by (simp_all add: move_child_predecessors_def)

lemma map_of_rev_distinct: "distinct (map fst xs) \<Longrightarrow> map_of (rev xs) = map_of xs"
  by (rule map_of_inject_set [THEN iffD2]) (simp_all add: rev_map [symmetric])

subsection \<open>The containers stay well formed\<close>

lemma wf_preds_empty: "wf_preds empty_analysis"
  by (simp add: wf_preds_def empty_analysis_def find_or_def)

lemma AddPred_wf: "wf_preds st \<Longrightarrow> wf_preds (AddPredecessorsForAccess r p ro st)"
  by (auto simp: wf_preds_def AddPredecessorsForAccess_def Let_def distinct_update find_or_update
      distinct_fold_insert split: option.splits)

lemma Track_wf [simp]: "wf_preds (TrackAccess r p ro st) = wf_preds st"
  by (simp add: wf_preds_def)

lemma unknown_loop_wf:
  "wf_preds st \<Longrightarrow> wf_preds (fst (unknown_access_loop ks p ro (st, tr)))"
  by (induction ks arbitrary: st tr) (simp_all add: Let_def AddPred_wf)

lemma known_loop_wf:
  "wf_preds st \<Longrightarrow> wf_preds (fst (known_access_loop rs p ro (st, tr)))"
  by (induction rs arbitrary: st tr) (simp_all add: Let_def AddPred_wf)

lemma emit_edges_wf: "wf_preds st \<Longrightarrow> wf_preds (emit_edges rs p ro st)"
  by (cases "kUnknownResourceId \<in> set rs")
     (simp_all add: emit_edges_unknown emit_edges_known unknown_loop_wf known_loop_wf AddPred_wf)

lemma analyze_op_wf: "analyze_op op st = Inr st' \<Longrightarrow> wf_preds st \<Longrightarrow> wf_preds st'"
  using analyze_op_cases [of op st st'] by (auto simp: emit_edges_wf)

lemma distinct_fold_update:
  "distinct (map fst m0) \<Longrightarrow>
     distinct (map fst (fold (\<lambda>entry m. AList.update (fst entry) (snd entry) m) xs m0))"
  by (induction xs arbitrary: m0) (simp_all add: distinct_update)

lemma move_child_wf:
  assumes "wf_preds c" and "wf_preds st"
  shows "wf_preds (move_child_predecessors c st)"
proof -
  have d: "distinct (map fst (control_predecessors (move_child_predecessors c st)))"
    using assms(2) by (simp add: move_child_predecessors_def wf_preds_def distinct_fold_update)
  have m: "map_of (control_predecessors (move_child_predecessors c st)) =
      map_of (control_predecessors st) ++ map_of (control_predecessors c)"
    using assms(1) by (simp add: move_child_map map_of_rev_distinct wf_preds_def)
  have "distinct (find_or [] (control_predecessors (move_child_predecessors c st)) q)" for q
  proof (cases "map_of (control_predecessors c) q")
    case None
    then have "find_or [] (control_predecessors (move_child_predecessors c st)) q =
        find_or [] (control_predecessors st) q"
      by (simp add: find_or_def m map_add_def)
    then show ?thesis using assms(2) by (simp add: wf_preds_def)
  next
    case (Some vs)
    then have "find_or [] (control_predecessors (move_child_predecessors c st)) q =
        find_or [] (control_predecessors c) q"
      by (simp add: find_or_def m map_add_def)
    then show ?thesis using assms(1) by (simp add: wf_preds_def)
  qed
  with d show ?thesis by (simp add: wf_preds_def)
qed

lemma Analyze_wf:
  "AnalyzeRegion r st = Inr st' \<Longrightarrow> wf_preds st \<Longrightarrow> wf_preds st'"
  "AnalyzeBlock b st = Inr st' \<Longrightarrow> wf_preds st \<Longrightarrow> wf_preds st'"
  "AnalyzeOperation x st = Inr st' \<Longrightarrow> wf_preds st \<Longrightarrow> wf_preds st'"
  "AnalyzeChildren cs st = Inr st' \<Longrightarrow> wf_preds st \<Longrightarrow> wf_preds st'"
proof (induction r st and b st and x st and cs st arbitrary: st' and st' and st' and st'
    rule: AnalyzeRegion_AnalyzeBlock_AnalyzeOperation_AnalyzeChildren.induct)
  case (1 st)
  then show ?case by simp
next
  case (2 block blocks st)
  from 2(3) obtain st1 where s1: "AnalyzeBlock block st = Inr st1"
    and s2: "AnalyzeRegion blocks st1 = Inr st'"
    by (auto split: sum.splits)
  from 2(1) [OF s1 2(4)] have "wf_preds st1" .
  with 2(2) [OF s1 s2] show ?case .
next
  case (3 st)
  then show ?case by simp
next
  case (4 op ops st)
  from 4(3) obtain st1 where s1: "AnalyzeOperation op st = Inr st1"
    and s2: "AnalyzeBlock ops st1 = Inr st'"
    by (auto split: sum.splits)
  from 4(1) [OF s1 4(4)] have "wf_preds st1" .
  with 4(2) [OF s1 s2] show ?case .
next
  case (5 p c d i s operands results regions st)
  from 5(2) obtain st1 where s1: "AnalyzeChildren regions st = Inr st1"
    and s2: "analyze_op (Operation p c d i s operands results regions) st1 = Inr st'"
    by (auto split: sum.splits)
  from 5(1) [OF s1 5(3)] have "wf_preds st1" .
  with analyze_op_wf [OF s2] show ?case .
next
  case (6 st)
  then show ?case by simp
next
  case (7 child children st)
  from 7(3) obtain ch where s1: "AnalyzeRegion child empty_analysis = Inr ch"
    and s2: "AnalyzeChildren children (move_child_predecessors ch st) = Inr st'"
    by (auto split: sum.splits)
  from 7(1) [OF s1 wf_preds_empty] have "wf_preds ch" .
  then have "wf_preds (move_child_predecessors ch st)" using 7(4) by (rule move_child_wf)
  with 7(2) [OF s1 s2] show ?case .
qed

subsection \<open>The walk mentions its own operations only\<close>

lemma empty_analysis_simps [simp]:
  "tracked_ops empty_analysis = {}"
  "pred_keys empty_analysis = {}"
  "preds_of empty_analysis q = {}"
  "map_of (control_predecessors empty_analysis) q = None"
  "sorted_control_predecessors empty_analysis = []"
  "sorted_control_successors empty_analysis = []"
  by (simp_all add: tracked_ops_def pred_keys_def preds_of_def find_or_def empty_analysis_def)

lemma move_child_tracked [simp]:
  "tracked_ops (move_child_predecessors c st) = tracked_ops st"
  by (simp add: tracked_ops_def)

lemma move_child_lookup:
  "wf_preds c \<Longrightarrow>
     map_of (control_predecessors (move_child_predecessors c st)) q =
       (case map_of (control_predecessors c) q of
          None \<Rightarrow> map_of (control_predecessors st) q
        | Some vs \<Rightarrow> Some vs)"
  by (simp add: move_child_map map_of_rev_distinct wf_preds_def map_add_def)

lemma move_child_walk_step:
  assumes wf: "wf_preds c" and c: "walk_step E A empty_analysis c"
  shows "walk_step E A st (move_child_predecessors c st)"
proof -
  let ?m = "move_child_predecessors c st"
  have ck: "pred_keys c \<subseteq> E" and cp: "\<And>q. preds_of c q \<subseteq> E"
    and cf: "\<And>q. q \<notin> A \<Longrightarrow> map_of (control_predecessors c) q = None"
    using c by (auto simp: walk_step_def)
  have k: "pred_keys ?m \<subseteq> pred_keys st \<union> E"
  proof
    fix q assume "q \<in> pred_keys ?m"
    then show "q \<in> pred_keys st \<union> E"
      using ck by (cases "map_of (control_predecessors c) q")
        (auto simp: pred_keys_def move_child_lookup [OF wf])
  qed
  have p: "preds_of ?m q \<subseteq> preds_of st q \<union> tracked_ops st \<union> E" for q
    using cp [of q]
    by (auto simp: preds_of_def find_or_def move_child_lookup [OF wf] split: option.splits)
  have f: "q \<notin> A \<longrightarrow> map_of (control_predecessors ?m) q = map_of (control_predecessors st) q" for q
    using cf [of q] by (simp add: move_child_lookup [OF wf])
  show ?thesis
    unfolding walk_step_def using k p f by simp
qed

lemma Analyze_walk_step:
  "AnalyzeRegion r st = Inr st' \<Longrightarrow>
     walk_step (effect_ptrs (region_ops r)) (op_ptr ` set (region_ops r)) st st'"
  "AnalyzeBlock b st = Inr st' \<Longrightarrow>
     walk_step (effect_ptrs (block_ops b)) (op_ptr ` set (block_ops b)) st st'"
  "AnalyzeOperation x st = Inr st' \<Longrightarrow>
     walk_step (effect_ptrs (operation_ops x)) (op_ptr ` set (operation_ops x)) st st'"
  "AnalyzeChildren cs st = Inr st' \<Longrightarrow>
     walk_step (effect_ptrs (children_ops cs)) (op_ptr ` set (children_ops cs)) st st' \<and>
     per_resource_access_info st' = per_resource_access_info st"
proof (induction r st and b st and x st and cs st arbitrary: st' and st' and st' and st'
    rule: AnalyzeRegion_AnalyzeBlock_AnalyzeOperation_AnalyzeChildren.induct)
  case (1 st)
  then show ?case by (simp add: walk_step_refl)
next
  case (2 block blocks st)
  from 2(3) obtain st1 where s1: "AnalyzeBlock block st = Inr st1"
    and s2: "AnalyzeRegion blocks st1 = Inr st'"
    by (auto split: sum.splits)
  show ?case
    using walk_step_trans [OF 2(1) [OF s1] 2(2) [OF s1 s2]] by (simp add: image_Un)
next
  case (3 st)
  then show ?case by (simp add: walk_step_refl)
next
  case (4 op ops st)
  from 4(3) obtain st1 where s1: "AnalyzeOperation op st = Inr st1"
    and s2: "AnalyzeBlock ops st1 = Inr st'"
    by (auto split: sum.splits)
  show ?case
    using walk_step_trans [OF 4(1) [OF s1] 4(2) [OF s1 s2]] by (simp add: image_Un)
next
  case (5 p c d i s operands results regions st)
  let ?op = "Operation p c d i s operands results regions"
  from 5(2) obtain st1 where s1: "AnalyzeChildren regions st = Inr st1"
    and s2: "analyze_op ?op st1 = Inr st'"
    by (auto split: sum.splits)
  have a: "walk_step (effect_ptrs (children_ops regions)) (op_ptr ` set (children_ops regions)) st st1"
    using 5(1) [OF s1] by simp
  have b: "walk_step (effect_ptrs [?op]) {op_ptr ?op} st1 st'"
    using analyze_op_walk_step [OF s2] .
  have e: "effect_ptrs (?op # children_ops regions) =
      effect_ptrs (children_ops regions) \<union> effect_ptrs [?op]"
    using effect_ptrs_append [of "[?op]" "children_ops regions"] by (simp add: Un_commute)
  have "walk_step (effect_ptrs (children_ops regions) \<union> effect_ptrs [?op])
      (op_ptr ` set (children_ops regions) \<union> {op_ptr ?op}) st st'"
    using walk_step_trans [OF a b] .
  then show ?case by (simp add: e Un_commute insert_commute)
next
  case (6 st)
  then show ?case by (simp add: walk_step_refl)
next
  case (7 child children st)
  from 7(3) obtain ch where s1: "AnalyzeRegion child empty_analysis = Inr ch"
    and s2: "AnalyzeChildren children (move_child_predecessors ch st) = Inr st'"
    by (auto split: sum.splits)
  have wf: "wf_preds ch" using Analyze_wf(1) [OF s1 wf_preds_empty] .
  have a: "walk_step (effect_ptrs (region_ops child)) (op_ptr ` set (region_ops child)) st
      (move_child_predecessors ch st)"
    using move_child_walk_step [OF wf 7(1) [OF s1]] .
  have b: "walk_step (effect_ptrs (children_ops children)) (op_ptr ` set (children_ops children))
      (move_child_predecessors ch st) st'"
    and p: "per_resource_access_info st' = per_resource_access_info st"
    using 7(2) [OF s1 s2] by simp_all
  show ?case
    using walk_step_trans [OF a b] p by (simp add: image_Un)
qed

subsection \<open>The finalizer\<close>

lemma set_insort_by [simp]: "set (insort_by cmp x ys) = insert x (set ys)"
  by (induction ys) auto

lemma set_llvm_sort [simp]: "set (llvm_sort cmp xs) = set xs"
  by (induction xs) (simp_all add: llvm_sort_def)

lemma distinct_insort_by: "distinct ys \<Longrightarrow> x \<notin> set ys \<Longrightarrow> distinct (insort_by cmp x ys)"
  by (induction ys) auto

lemma distinct_llvm_sort: "distinct xs \<Longrightarrow> distinct (llvm_sort cmp xs)"
proof (induction xs)
  case Nil
  then show ?case by (simp add: llvm_sort_def)
next
  case (Cons x xs)
  then have "distinct (foldr (insort_by cmp) xs [])" and "x \<notin> set (foldr (insort_by cmp) xs [])"
    using set_llvm_sort [of cmp xs] by (simp_all add: llvm_sort_def)
  then show ?case by (simp add: llvm_sort_def distinct_insort_by)
qed

lemma strict_total_order_on_subset:
  "strict_total_order_on A cmp \<Longrightarrow> B \<subseteq> A \<Longrightarrow> strict_total_order_on B cmp"
  unfolding strict_total_order_on_def by blast

lemma sorted_insort_by:
  "sorted_wrt cmp ys \<Longrightarrow> x \<notin> set ys \<Longrightarrow> strict_total_order_on (insert x (set ys)) cmp \<Longrightarrow>
     sorted_wrt cmp (insort_by cmp x ys)"
proof (induction ys)
  case Nil
  then show ?case by simp
next
  case (Cons y ys)
  have ord: "strict_total_order_on (insert x (set ys)) cmp"
    using Cons.prems(3) by (rule strict_total_order_on_subset) auto
  show ?case
  proof (cases "cmp x y")
    case True
    have "cmp x z" if "z \<in> set ys" for z
    proof -
      from that Cons.prems(1) have "cmp y z" by simp
      with True that Cons.prems(3) show ?thesis
        unfolding strict_total_order_on_def by (meson insertCI list.set_intros)
    qed
    with True Cons.prems(1) show ?thesis by simp
  next
    case False
    from Cons.prems(2) have "x \<noteq> y" by auto
    with False Cons.prems(3) have yx: "cmp y x"
      unfolding strict_total_order_on_def by (meson insertCI list.set_intros(1))
    have "sorted_wrt cmp (insort_by cmp x ys)"
      using Cons.IH [OF _ _ ord] Cons.prems(1,2) by simp
    moreover have "\<forall>z \<in> set (insort_by cmp x ys). cmp y z"
      using yx Cons.prems(1) by auto
    ultimately show ?thesis using False by simp
  qed
qed

lemma sorted_llvm_sort:
  "distinct xs \<Longrightarrow> strict_total_order_on (set xs) cmp \<Longrightarrow> sorted_wrt cmp (llvm_sort cmp xs)"
proof (induction xs)
  case Nil
  then show ?case by (simp add: llvm_sort_def)
next
  case (Cons x xs)
  have "strict_total_order_on (set xs) cmp"
    using Cons.prems(2) by (rule strict_total_order_on_subset) auto
  with Cons have s: "sorted_wrt cmp (llvm_sort cmp xs)" by simp
  have "sorted_wrt cmp (insort_by cmp x (llvm_sort cmp xs))"
    using s Cons.prems by (intro sorted_insort_by) simp_all
  then show ?case by (simp add: llvm_sort_def)
qed

lemma populate_inner:
  "fold (\<lambda>predecessor s.
           s\<lparr>sorted_control_predecessors :=
                push_back k predecessor (sorted_control_predecessors s),
             sorted_control_successors :=
                push_back predecessor k (sorted_control_successors s)\<rparr>) vs st =
     st\<lparr>sorted_control_predecessors :=
          fold (\<lambda>predecessor. push_back k predecessor) vs (sorted_control_predecessors st),
        sorted_control_successors :=
          fold (\<lambda>predecessor. push_back predecessor k) vs (sorted_control_successors st)\<rparr>"
  by (induction vs arbitrary: st) simp_all

lemma populate_sorted_eq:
  "populate_sorted entry st =
     st\<lparr>sorted_control_predecessors := add_predecessors entry (sorted_control_predecessors st),
        sorted_control_successors := add_successors entry (sorted_control_successors st)\<rparr>"
  by (simp add: populate_sorted_def Let_def populate_inner add_predecessors_def
      add_successors_def)

lemma fold_populate_sorted:
  "fold populate_sorted es st =
     st\<lparr>sorted_control_predecessors := fold add_predecessors es (sorted_control_predecessors st),
        sorted_control_successors := fold add_successors es (sorted_control_successors st)\<rparr>"
  by (induction es arbitrary: st) (simp_all add: populate_sorted_eq)

lemma update_last_entry:
  "k \<notin> fst ` set m \<Longrightarrow> AList.update k v (m @ [(k, x)]) = m @ [(k, v)]"
  by (induction m) auto

lemma update_new_entry:
  "k \<notin> fst ` set m \<Longrightarrow> AList.update k v m = m @ [(k, v)]"
  by (induction m) auto

lemma find_or_last_entry:
  "k \<notin> fst ` set m \<Longrightarrow> find_or d (m @ [(k, x)]) k = x"
  by (auto simp: find_or_def map_add_def split: option.splits)
     (metis domI dom_map_of_conv_image_fst)

lemma push_back_last_entry:
  "k \<notin> fst ` set m \<Longrightarrow>
     fold (\<lambda>predecessor. push_back k predecessor) vs (m @ [(k, xs)]) = m @ [(k, xs @ vs)]"
  by (induction vs arbitrary: xs)
     (simp_all add: push_back_def update_last_entry find_or_last_entry)

lemma add_predecessors_new:
  "k \<notin> fst ` set m \<Longrightarrow> add_predecessors (k, vs) m = m @ [(k, vs)]"
proof -
  assume k: "k \<notin> fst ` set m"
  then have "find_or [] m k = []"
    by (auto simp: find_or_def split: option.splits) (metis domI dom_map_of_conv_image_fst)
  with k show ?thesis
    by (simp add: add_predecessors_def update_new_entry push_back_last_entry)
qed

lemma fold_add_predecessors:
  "distinct (map fst es) \<Longrightarrow> fst ` set es \<inter> fst ` set m = {} \<Longrightarrow>
     fold add_predecessors es m = m @ es"
proof (induction es arbitrary: m)
  case Nil
  then show ?case by simp
next
  case (Cons e es)
  obtain k vs where e: "e = (k, vs)" by (cases e)
  from Cons.prems e have k: "k \<notin> fst ` set m" by auto
  have "fold add_predecessors es (m @ [(k, vs)]) = (m @ [(k, vs)]) @ es"
    using Cons.prems e by (intro Cons.IH) auto
  with k e show ?case by (simp add: add_predecessors_new)
qed

lemma push_back_lookup:
  "find_or [] (push_back k v m) q = (if q = k then find_or [] m k @ [v] else find_or [] m q)"
  by (simp add: push_back_def find_or_update)

lemma push_back_distinct: "distinct (map fst m) \<Longrightarrow> distinct (map fst (push_back k v m))"
  by (simp add: push_back_def distinct_update)

lemma add_successors_lookup:
  "distinct vs \<Longrightarrow>
     find_or [] (add_successors (k, vs) m) p =
       find_or [] m p @ (if p \<in> set vs then [k] else [])"
  unfolding add_successors_def fst_conv snd_conv
  by (induction vs arbitrary: m) (auto simp: push_back_lookup)

lemma fold_push_back_distinct:
  "distinct (map fst m) \<Longrightarrow>
     distinct (map fst (fold (\<lambda>predecessor. push_back predecessor k) vs m))"
  by (induction vs arbitrary: m) (simp_all add: push_back_distinct)

lemma add_successors_distinct:
  "distinct (map fst m) \<Longrightarrow> distinct (map fst (add_successors e m))"
  by (simp add: add_successors_def fold_push_back_distinct)

lemma fold_add_successors_lookup:
  "\<forall>e \<in> set es. distinct (snd e) \<Longrightarrow>
     find_or [] (fold add_successors es m) p =
       find_or [] m p @ map fst (filter (\<lambda>e. p \<in> set (snd e)) es)"
proof (induction es arbitrary: m)
  case Nil
  then show ?case by simp
next
  case (Cons e es)
  obtain k vs where e: "e = (k, vs)" by (cases e)
  with Cons.prems have d: "distinct vs" by simp
  show ?case
    using Cons.IH [of "add_successors (k, vs) m"] Cons.prems e
    by (simp add: add_successors_lookup [OF d])
qed

lemma fold_add_successors_distinct:
  "distinct (map fst m) \<Longrightarrow> distinct (map fst (fold add_successors es m))"
  by (induction es arbitrary: m) (simp_all add: add_successors_distinct)

lemma sort_entries_keys [simp]: "map fst (sort_entries cmp m) = map fst m"
  by (simp add: sort_entries_def)

lemma sort_entries_lookup:
  "map_of (sort_entries cmp m) k = map_option (llvm_sort cmp) (map_of m k)"
  by (induction m) (auto simp: sort_entries_def)

lemma find_or_sort_entries:
  "find_or [] (sort_entries cmp m) k = llvm_sort cmp (find_or [] m k)"
  by (simp add: find_or_def sort_entries_lookup llvm_sort_def split: option.splits)

lemma analyze_func_graph:
  assumes "analyze_func cmp body = Inr g"
  shows "\<exists>st1. AnalyzeRegion body empty_analysis = Inr st1 \<and> wf_preds st1 \<and>
           sorted_control_predecessors g = sort_entries cmp (control_predecessors st1) \<and>
           sorted_control_successors g =
             sort_entries cmp (fold add_successors (control_predecessors st1) [])"
proof (cases "AnalyzeRegion body empty_analysis")
  case (Inl e)
  with assms show ?thesis by (simp add: analyze_func_def AnalyzeFunction_def)
next
  case (Inr st1)
  have wf: "wf_preds st1" using Analyze_wf(1) [OF Inr wf_preds_empty] .
  have e: "sorted_control_predecessors st1 = []" "sorted_control_successors st1 = []"
    using Analyze_walk_step(1) [OF Inr] by (simp_all add: walk_step_def)
  have p: "fold add_predecessors (control_predecessors st1) [] = control_predecessors st1"
    using wf fold_add_predecessors [of "control_predecessors st1" "[]"]
    by (simp add: wf_preds_def)
  have "sorted_control_predecessors g = sort_entries cmp (control_predecessors st1)"
    using assms Inr e p
    by (auto simp: analyze_func_def AnalyzeFunction_def Let_def fold_populate_sorted)
  moreover have "sorted_control_successors g =
      sort_entries cmp (fold add_successors (control_predecessors st1) [])"
    using assms Inr e
    by (auto simp: analyze_func_def AnalyzeFunction_def Let_def fold_populate_sorted)
  ultimately show ?thesis using Inr wf by simp
qed

lemma wf_preds_entry:
  "wf_preds st \<Longrightarrow> (k, vs) \<in> set (control_predecessors st) \<Longrightarrow>
     distinct vs \<and> find_or [] (control_predecessors st) k = vs"
proof -
  assume wf: "wf_preds st" and m: "(k, vs) \<in> set (control_predecessors st)"
  then have "map_of (control_predecessors st) k = Some vs" by (simp add: wf_preds_def)
  then have "find_or [] (control_predecessors st) k = vs" by (simp add: find_or_def)
  with wf show ?thesis by (auto simp: wf_preds_def)
qed

lemma successors_before_sort:
  assumes "wf_preds st"
  shows "find_or [] (fold add_successors (control_predecessors st) []) p =
           map fst (filter (\<lambda>e. p \<in> set (snd e)) (control_predecessors st))"
proof -
  have "\<forall>e \<in> set (control_predecessors st). distinct (snd e)"
    using wf_preds_entry [OF assms] by auto
  moreover have "find_or [] ([] :: (nat \<times> nat list) list) p = []" by (simp add: find_or_def)
  ultimately show ?thesis by (simp add: fold_add_successors_lookup)
qed

lemma set_successors_before_sort:
  assumes "wf_preds st"
  shows "set (find_or [] (fold add_successors (control_predecessors st) []) p) =
           {k. p \<in> preds_of st k}"
proof -
  have "(k \<in> fst ` {e \<in> set (control_predecessors st). p \<in> set (snd e)}) = (p \<in> preds_of st k)"
    for k
  proof
    assume "k \<in> fst ` {e \<in> set (control_predecessors st). p \<in> set (snd e)}"
    then obtain vs where "(k, vs) \<in> set (control_predecessors st)" "p \<in> set vs" by auto
    then show "p \<in> preds_of st k" using wf_preds_entry [OF assms] by (auto simp: preds_of_def)
  next
    assume "p \<in> preds_of st k"
    then obtain vs where "map_of (control_predecessors st) k = Some vs" "p \<in> set vs"
      by (cases "map_of (control_predecessors st) k") (auto simp: preds_of_def find_or_def)
    then have "(k, vs) \<in> set (control_predecessors st)" "p \<in> set vs"
      by (auto dest: map_of_SomeD)
    then show "k \<in> fst ` {e \<in> set (control_predecessors st). p \<in> set (snd e)}" by force
  qed
  then show ?thesis by (auto simp: successors_before_sort [OF assms])
qed

lemma DirectControlPredecessors_eq:
  "DirectControlPredecessors g p None = find_or [] (sorted_control_predecessors g) p"
  by (simp add: DirectControlPredecessors_def find_or_def split: option.splits)

lemma DirectControlSuccessors_eq:
  "DirectControlSuccessors g p None = find_or [] (sorted_control_successors g) p"
  by (simp add: DirectControlSuccessors_def find_or_def split: option.splits)

lemma DirectControlPredecessors_filter:
  "set (DirectControlPredecessors g p flt) \<subseteq> set (DirectControlPredecessors g p None)"
  by (auto simp: DirectControlPredecessors_def split: option.splits)

lemma DirectControlSuccessors_filter:
  "set (DirectControlSuccessors g p flt) \<subseteq> set (DirectControlSuccessors g p None)"
  by (auto simp: DirectControlSuccessors_def split: option.splits)

lemma analyze_func_predecessors:
  assumes "analyze_func cmp body = Inr g" and "AnalyzeRegion body empty_analysis = Inr st1"
  shows "set (DirectControlPredecessors g p None) = preds_of st1 p"
  using analyze_func_graph [OF assms(1)] assms(2)
  by (auto simp: DirectControlPredecessors_eq find_or_sort_entries preds_of_def)

lemma analyze_func_successors:
  assumes "analyze_func cmp body = Inr g" and "AnalyzeRegion body empty_analysis = Inr st1"
  shows "set (DirectControlSuccessors g p None) = {k. p \<in> preds_of st1 k}"
proof -
  from analyze_func_graph [OF assms(1)] assms(2)
  have wf: "wf_preds st1"
    and s: "sorted_control_successors g =
      sort_entries cmp (fold add_successors (control_predecessors st1) [])"
    by auto
  show ?thesis
    by (simp add: DirectControlSuccessors_eq s find_or_sort_entries
        set_successors_before_sort [OF wf])
qed

lemma analyze_func_region:
  "analyze_func cmp body = Inr g \<Longrightarrow> \<exists>st1. AnalyzeRegion body empty_analysis = Inr st1"
  using analyze_func_graph by blast

subsection \<open>No operation precedes itself\<close>

lemma mentioned_empty [simp]: "mentioned empty_analysis = {}"
  by (simp add: mentioned_def)

lemma walk_step_mentioned:
  "walk_step E A st st' \<Longrightarrow> mentioned st' \<subseteq> mentioned st \<union> E"
  unfolding walk_step_def mentioned_def by blast

lemma Analyze_mentioned:
  "AnalyzeRegion r st = Inr st' \<Longrightarrow> mentioned st' \<subseteq> mentioned st \<union> op_ptr ` set (region_ops r)"
  "AnalyzeBlock b st = Inr st' \<Longrightarrow> mentioned st' \<subseteq> mentioned st \<union> op_ptr ` set (block_ops b)"
  "AnalyzeOperation x st = Inr st' \<Longrightarrow>
     mentioned st' \<subseteq> mentioned st \<union> op_ptr ` set (operation_ops x)"
  "AnalyzeChildren cs st = Inr st' \<Longrightarrow>
     mentioned st' \<subseteq> mentioned st \<union> op_ptr ` set (children_ops cs)"
  using Analyze_walk_step(1-3) [THEN walk_step_mentioned]
    Analyze_walk_step(4) [THEN conjunct1, THEN walk_step_mentioned]
    effect_ptrs_subset
  by blast+

lemma analyze_op_irreflexive:
  assumes a: "analyze_op op st = Inr st'"
    and i: "\<forall>q. q \<notin> preds_of st q"
    and t: "op_ptr op \<notin> tracked_ops st"
  shows "\<forall>q. q \<notin> preds_of st' q"
proof
  fix q
  from analyze_op_cases [OF a] show "q \<notin> preds_of st' q"
  proof
    assume "st' = st"
    with i show ?thesis by simp
  next
    assume e: "\<not> OpIsDeclaration op \<and>
      st' = emit_edges (accessed_resources op) (op_ptr op) (OpIsReadOnly op) st"
    show ?thesis
    proof (cases "q = op_ptr op")
      case True
      have "preds_of st' (op_ptr op) \<subseteq> preds_of st (op_ptr op) \<union> tracked_ops st"
        using e emit_edges_preds [OF distinct_accessed_resources] by simp
      with i t True show ?thesis by blast
    next
      case False
      have "preds_of st' q = preds_of st q"
        using e preds_of_cong [OF emit_edges_other [OF False]] by simp
      with i show ?thesis by simp
    qed
  qed
qed

lemma move_child_irreflexive:
  assumes "wf_preds c" and "\<forall>q. q \<notin> preds_of c q" and "\<forall>q. q \<notin> preds_of st q"
  shows "\<forall>q. q \<notin> preds_of (move_child_predecessors c st) q"
proof
  fix q
  show "q \<notin> preds_of (move_child_predecessors c st) q"
    using assms(2,3)
    by (cases "map_of (control_predecessors c) q")
       (auto simp: preds_of_def find_or_def move_child_lookup [OF assms(1)])
qed

lemma Analyze_irreflexive:
  "AnalyzeRegion r st = Inr st' \<Longrightarrow> distinct (map op_ptr (region_ops r)) \<Longrightarrow>
     mentioned st \<inter> op_ptr ` set (region_ops r) = {} \<Longrightarrow> \<forall>q. q \<notin> preds_of st q \<Longrightarrow>
     \<forall>q. q \<notin> preds_of st' q"
  "AnalyzeBlock b st = Inr st' \<Longrightarrow> distinct (map op_ptr (block_ops b)) \<Longrightarrow>
     mentioned st \<inter> op_ptr ` set (block_ops b) = {} \<Longrightarrow> \<forall>q. q \<notin> preds_of st q \<Longrightarrow>
     \<forall>q. q \<notin> preds_of st' q"
  "AnalyzeOperation x st = Inr st' \<Longrightarrow> distinct (map op_ptr (operation_ops x)) \<Longrightarrow>
     mentioned st \<inter> op_ptr ` set (operation_ops x) = {} \<Longrightarrow> \<forall>q. q \<notin> preds_of st q \<Longrightarrow>
     \<forall>q. q \<notin> preds_of st' q"
  "AnalyzeChildren cs st = Inr st' \<Longrightarrow> distinct (map op_ptr (children_ops cs)) \<Longrightarrow>
     mentioned st \<inter> op_ptr ` set (children_ops cs) = {} \<Longrightarrow> \<forall>q. q \<notin> preds_of st q \<Longrightarrow>
     \<forall>q. q \<notin> preds_of st' q"
proof (induction r st and b st and x st and cs st arbitrary: st' and st' and st' and st'
    rule: AnalyzeRegion_AnalyzeBlock_AnalyzeOperation_AnalyzeChildren.induct)
  case (1 st)
  then show ?case by simp
next
  case (2 block blocks st)
  from 2(3) obtain st1 where s1: "AnalyzeBlock block st = Inr st1"
    and s2: "AnalyzeRegion blocks st1 = Inr st'"
    by (auto split: sum.splits)
  from 2(4) have d1: "distinct (map op_ptr (block_ops block))"
    and d2: "distinct (map op_ptr (region_ops blocks))"
    and dj: "op_ptr ` set (block_ops block) \<inter> op_ptr ` set (region_ops blocks) = {}"
    by auto
  from 2(5) have m1: "mentioned st \<inter> op_ptr ` set (block_ops block) = {}"
    and m2: "mentioned st \<inter> op_ptr ` set (region_ops blocks) = {}"
    by (auto simp: image_Un)
  have i1: "\<forall>q. q \<notin> preds_of st1 q" using 2(1) [OF s1 d1 m1 2(6)] .
  have "mentioned st1 \<inter> op_ptr ` set (region_ops blocks) = {}"
    using Analyze_mentioned(2) [OF s1] m2 dj by blast
  then show ?case using 2(2) [OF s1 s2 d2 _ i1] by blast
next
  case (3 st)
  then show ?case by simp
next
  case (4 op ops st)
  from 4(3) obtain st1 where s1: "AnalyzeOperation op st = Inr st1"
    and s2: "AnalyzeBlock ops st1 = Inr st'"
    by (auto split: sum.splits)
  from 4(4) have d1: "distinct (map op_ptr (operation_ops op))"
    and d2: "distinct (map op_ptr (block_ops ops))"
    and dj: "op_ptr ` set (operation_ops op) \<inter> op_ptr ` set (block_ops ops) = {}"
    by auto
  from 4(5) have m1: "mentioned st \<inter> op_ptr ` set (operation_ops op) = {}"
    and m2: "mentioned st \<inter> op_ptr ` set (block_ops ops) = {}"
    by (auto simp: image_Un)
  have i1: "\<forall>q. q \<notin> preds_of st1 q" using 4(1) [OF s1 d1 m1 4(6)] .
  have "mentioned st1 \<inter> op_ptr ` set (block_ops ops) = {}"
    using Analyze_mentioned(3) [OF s1] m2 dj by blast
  then show ?case using 4(2) [OF s1 s2 d2 _ i1] by blast
next
  case (5 p c d i s operands results regions st)
  let ?op = "Operation p c d i s operands results regions"
  from 5(2) obtain st1 where s1: "AnalyzeChildren regions st = Inr st1"
    and s2: "analyze_op ?op st1 = Inr st'"
    by (auto split: sum.splits)
  from 5(3) have d1: "distinct (map op_ptr (children_ops regions))" by simp
  from 5(4) have m1: "mentioned st \<inter> op_ptr ` set (children_ops regions) = {}"
    and p: "p \<notin> mentioned st" by auto
  have i1: "\<forall>q. q \<notin> preds_of st1 q" using 5(1) [OF s1 d1 m1 5(5)] .
  have "tracked_ops st1 = tracked_ops st"
    using Analyze_walk_step(4) [OF s1] by (simp add: tracked_ops_def)
  with p have "op_ptr ?op \<notin> tracked_ops st1" by (simp add: mentioned_def)
  with analyze_op_irreflexive [OF s2 i1] show ?case by blast
next
  case (6 st)
  then show ?case by simp
next
  case (7 child children st)
  from 7(3) obtain ch where s1: "AnalyzeRegion child empty_analysis = Inr ch"
    and s2: "AnalyzeChildren children (move_child_predecessors ch st) = Inr st'"
    by (auto split: sum.splits)
  from 7(4) have d1: "distinct (map op_ptr (region_ops child))"
    and d2: "distinct (map op_ptr (children_ops children))"
    and dj: "op_ptr ` set (region_ops child) \<inter> op_ptr ` set (children_ops children) = {}"
    by auto
  from 7(5) have m2: "mentioned st \<inter> op_ptr ` set (children_ops children) = {}"
    by (auto simp: image_Un)
  have wf: "wf_preds ch" using Analyze_wf(1) [OF s1 wf_preds_empty] .
  have i1: "\<forall>q. q \<notin> preds_of ch q" using 7(1) [OF s1 d1] by simp
  have i2: "\<forall>q. q \<notin> preds_of (move_child_predecessors ch st) q"
    using move_child_irreflexive [OF wf i1 7(6)] .
  have "mentioned (move_child_predecessors ch st) \<subseteq> mentioned st \<union> op_ptr ` set (region_ops child)"
    using walk_step_mentioned [OF move_child_walk_step [OF wf Analyze_walk_step(1) [OF s1]]]
      effect_ptrs_subset by blast
  then have "mentioned (move_child_predecessors ch st) \<inter> op_ptr ` set (children_ops children) = {}"
    using m2 dj by blast
  then show ?case using 7(2) [OF s1 s2 d2 _ i2] by blast
qed

subsection \<open>The example, evaluated\<close>

lemma ex_before_order: "strict_total_order_on A ex_before"
  by (auto simp: strict_total_order_on_def ex_before_def)

lemma ex_program_ops:
  "map op_ptr (region_ops ex_program) = [0, 1, 8, 2, 3, 4, 5, 6, 7]"
  by (simp add: ex_program_def ex_op_def)

lemma ex_program_graph: "analyze_func ex_before ex_program = Inr ex_graph"
  by (simp add: analyze_func_def AnalyzeFunction_def ex_program_def ex_op_def ex_graph_def
      written_by_def empty_analysis_def analyze_op_def OpIsDeclaration_def
      GetResourceInfoForOp_def OpIsKnownToHaveNoSideEffect_def OpIsReadOnly_def
      accessed_resources_def FindAccessedResources_def filter_resources_def
      UnknownResourceSet_def emit_edges_def Let_def kUnknownResourceId_def
      AddPredecessorsForAccess_def TrackAccess_def
      unknown_access_indirectly_tracked_by_resource_def find_or_def new_access_info_def
      move_child_predecessors_def populate_sorted_def push_back_def sort_entries_def
      llvm_sort_def ex_before_def)

subsection \<open>Properties of the finalized graph\<close>

lemma mentioned_parts:
  "preds_of st q \<subseteq> mentioned st" "pred_keys st \<subseteq> mentioned st" "tracked_ops st \<subseteq> mentioned st"
  by (auto simp: mentioned_def)

text \<open>
  Claim C6. After \<^verbatim>\<open>AnalyzeFunction\<close>, when the comparator is a strict total order
  on the operations of the function, every stored predecessor list and every stored
  successor list is strictly increasing for the comparator and has no duplicates.
\<close>

theorem sorted_lists_strictly_increasing:
  assumes g: "analyze_func isBeforeInBlock body = Inr g"
    and ord: "strict_total_order_on (op_ptr ` set (region_ops body)) isBeforeInBlock"
  shows "(\<forall>entry \<in> set (sorted_control_predecessors g).
            sorted_wrt isBeforeInBlock (snd entry) \<and> distinct (snd entry)) \<and>
         (\<forall>entry \<in> set (sorted_control_successors g).
            sorted_wrt isBeforeInBlock (snd entry) \<and> distinct (snd entry))"
proof -
  from analyze_func_graph [OF g] obtain st1 where
    s1: "AnalyzeRegion body empty_analysis = Inr st1" and wf: "wf_preds st1"
    and sp: "sorted_control_predecessors g =
      sort_entries isBeforeInBlock (control_predecessors st1)"
    and ss: "sorted_control_successors g =
      sort_entries isBeforeInBlock (fold add_successors (control_predecessors st1) [])"
    by blast
  let ?A = "op_ptr ` set (region_ops body)"
  have m: "mentioned st1 \<subseteq> ?A" using Analyze_mentioned(1) [OF s1] by simp
  have sorted: "sorted_wrt isBeforeInBlock (llvm_sort isBeforeInBlock vs) \<and>
      distinct (llvm_sort isBeforeInBlock vs)" if "distinct vs" "set vs \<subseteq> ?A" for vs
    using that sorted_llvm_sort [OF that(1) strict_total_order_on_subset [OF ord that(2)]]
    by (simp add: distinct_llvm_sort)
  have p: "sorted_wrt isBeforeInBlock (snd entry) \<and> distinct (snd entry)"
    if "entry \<in> set (sorted_control_predecessors g)" for entry
  proof -
    from that obtain k vs where kv: "(k, vs) \<in> set (control_predecessors st1)"
      and e: "entry = (k, llvm_sort isBeforeInBlock vs)"
      by (auto simp: sp sort_entries_def)
    from wf_preds_entry [OF wf kv] have d: "distinct vs" and "set vs = preds_of st1 k"
      by (auto simp: preds_of_def)
    then have "set vs \<subseteq> ?A" using m mentioned_parts(1) [of st1 k] by blast
    with sorted [OF d] e show ?thesis by simp
  qed
  let ?m = "fold add_successors (control_predecessors st1) []"
  have dk: "distinct (map fst ?m)" by (simp add: fold_add_successors_distinct)
  have s: "sorted_wrt isBeforeInBlock (snd entry) \<and> distinct (snd entry)"
    if "entry \<in> set (sorted_control_successors g)" for entry
  proof -
    from that obtain k vs where kv: "(k, vs) \<in> set ?m"
      and e: "entry = (k, llvm_sort isBeforeInBlock vs)"
      by (auto simp: ss sort_entries_def)
    from kv dk have "map_of ?m k = Some vs" by simp
    then have "find_or [] ?m k = vs" by (simp add: find_or_def)
    then have vs: "vs = map fst (filter (\<lambda>e. k \<in> set (snd e)) (control_predecessors st1))"
      by (simp add: successors_before_sort [OF wf])
    have d: "distinct vs"
      using wf unfolding vs wf_preds_def by (simp add: distinct_map_filter)
    have "set vs \<subseteq> pred_keys st1"
      unfolding vs pred_keys_def by (auto simp: dom_map_of_conv_image_fst)
    then have "set vs \<subseteq> ?A" using m mentioned_parts(2) [of st1] by blast
    with sorted [OF d] e show ?thesis by simp
  qed
  from p s show ?thesis by blast
qed

theorem sorted_lists_strictly_increasing_witness:
  "analyze_func ex_before ex_program = Inr ex_graph \<and>
   strict_total_order_on (op_ptr ` set (region_ops ex_program)) ex_before \<and>
   (5, [3, 4]) \<in> set (sorted_control_predecessors ex_graph) \<and>
   sorted_wrt ex_before [3, 4] \<and>
   (2, [3, 4]) \<in> set (sorted_control_successors ex_graph)"
proof -
  have a: "(5, [3, 4]) \<in> set (sorted_control_predecessors ex_graph)"
    and b: "(2, [3, 4]) \<in> set (sorted_control_successors ex_graph)"
    by (simp_all add: ex_graph_def)
  from sorted_lists_strictly_increasing [OF ex_program_graph ex_before_order] a
  have "sorted_wrt ex_before (snd (5 :: nat, [3, 4 :: nat]))" by blast
  with a b show ?thesis using ex_program_graph ex_before_order by simp
qed

lemma analyze_func_mentioned:
  assumes "analyze_func cmp body = Inr g"
  obtains st1 where "AnalyzeRegion body empty_analysis = Inr st1"
    and "tracked_ops st1 \<subseteq> effect_ptrs (region_ops body)"
    and "pred_keys st1 \<subseteq> effect_ptrs (region_ops body)"
    and "\<And>q. preds_of st1 q \<subseteq> effect_ptrs (region_ops body)"
    and "\<And>q. set (DirectControlPredecessors g q None) = preds_of st1 q"
    and "\<And>q. set (DirectControlSuccessors g q None) = {k. q \<in> preds_of st1 k}"
proof -
  from analyze_func_region [OF assms] obtain st1 where
    s1: "AnalyzeRegion body empty_analysis = Inr st1" by blast
  have w: "walk_step (effect_ptrs (region_ops body)) (op_ptr ` set (region_ops body))
      empty_analysis st1"
    using Analyze_walk_step(1) [OF s1] .
  show ?thesis
  proof (rule that [OF s1])
    show "tracked_ops st1 \<subseteq> effect_ptrs (region_ops body)"
      using w by (simp add: walk_step_def)
    show "pred_keys st1 \<subseteq> effect_ptrs (region_ops body)"
      using w by (simp add: walk_step_def)
    show "preds_of st1 q \<subseteq> effect_ptrs (region_ops body)" for q
      using w by (simp add: walk_step_def)
    show "set (DirectControlPredecessors g q None) = preds_of st1 q" for q
      using analyze_func_predecessors [OF assms s1] .
    show "set (DirectControlSuccessors g q None) = {k. q \<in> preds_of st1 k}" for q
      using analyze_func_successors [OF assms s1] .
  qed
qed

lemma preds_nonempty_key: "q \<in> preds_of st k \<Longrightarrow> k \<in> pred_keys st"
  by (cases "map_of (control_predecessors st) k")
     (auto simp: preds_of_def pred_keys_def find_or_def)

lemma declaration_not_effect:
  assumes "distinct (map op_ptr ops)" and "d \<in> set ops" and "OpIsDeclaration d"
  shows "op_ptr d \<notin> effect_ptrs ops"
proof
  assume "op_ptr d \<in> effect_ptrs ops"
  then obtain e where e: "e \<in> set ops" "\<not> OpIsDeclaration e" "op_ptr e = op_ptr d"
    by (auto simp: effect_ptrs_def)
  from assms(1) have "inj_on op_ptr (set ops)" by (simp add: distinct_map)
  with e(1,3) assms(2) have "e = d" by (auto dest: inj_onD)
  with e(2) assms(3) show False by simp
qed

lemma AnalyzeOperation_declaration:
  assumes "AnalyzeOperation d st = Inr st'" and "OpIsDeclaration d"
  shows "per_resource_access_info st' = per_resource_access_info st"
proof (cases d)
  case (Operation p c dl i s operands results regions)
  with assms(1) obtain st1 where s1: "AnalyzeChildren regions st = Inr st1"
    and s2: "analyze_op d st1 = Inr st'"
    by (auto split: sum.splits)
  from s2 assms(2) have "st' = st1" by (simp add: analyze_op_def)
  with Analyze_walk_step(4) [OF s1] show ?thesis by simp
qed

text \<open>
  Claim C5. In a function whose operations are pairwise different, a declaration is in
  no predecessor list and in no successor list of the finalized graph, its own two lists
  are empty, and its step of the walk leaves every access record as it was: the step
  itself returns the state unchanged, and with the nested regions of the operation
  analysed first the access records are still the same.
\<close>

theorem declaration_is_edge_free:
  assumes g: "analyze_func isBeforeInBlock body = Inr g"
    and dist: "distinct (map op_ptr (region_ops body))"
    and d: "d \<in> set (region_ops body)"
    and decl: "OpIsDeclaration d"
  shows "(\<forall>x. op_ptr d \<notin> set (DirectControlPredecessors g x flt) \<and>
              op_ptr d \<notin> set (DirectControlSuccessors g x flt)) \<and>
         DirectControlPredecessors g (op_ptr d) flt = [] \<and>
         DirectControlSuccessors g (op_ptr d) flt = [] \<and>
         analyze_op d st = Inr st \<and>
         (\<forall>st'. AnalyzeOperation d st = Inr st' \<longrightarrow>
            per_resource_access_info st' = per_resource_access_info st)"
proof (rule analyze_func_mentioned [OF g])
  fix st1
  assume k: "pred_keys st1 \<subseteq> effect_ptrs (region_ops body)"
    and p: "\<And>q. preds_of st1 q \<subseteq> effect_ptrs (region_ops body)"
    and dp: "\<And>q. set (DirectControlPredecessors g q None) = preds_of st1 q"
    and ds: "\<And>q. set (DirectControlSuccessors g q None) = {k. q \<in> preds_of st1 k}"
  have n: "op_ptr d \<notin> effect_ptrs (region_ops body)"
    using declaration_not_effect [OF dist d decl] .
  have nk: "op_ptr d \<notin> pred_keys st1" using n k by blast
  have np: "op_ptr d \<notin> preds_of st1 x" for x using n p [of x] by blast
  have ns: "x \<notin> preds_of st1 (op_ptr d)" for x
    using nk preds_nonempty_key [of x st1 "op_ptr d"] by blast
  have a: "op_ptr d \<notin> set (DirectControlPredecessors g x None)" for x
    using np [of x] by (simp add: dp)
  have b: "op_ptr d \<notin> set (DirectControlSuccessors g x None)" for x
    using ns [of x] by (simp add: ds)
  have c: "set (DirectControlPredecessors g (op_ptr d) None) = {}"
    using ns by (simp add: dp) blast
  have e: "set (DirectControlSuccessors g (op_ptr d) None) = {}"
    using np by (simp add: ds)
  have "op_ptr d \<notin> set (DirectControlPredecessors g x flt)" for x
    using a [of x] DirectControlPredecessors_filter [of g x flt] by blast
  moreover have "op_ptr d \<notin> set (DirectControlSuccessors g x flt)" for x
    using b [of x] DirectControlSuccessors_filter [of g x flt] by blast
  moreover have "DirectControlPredecessors g (op_ptr d) flt = []"
    using c DirectControlPredecessors_filter [of g "op_ptr d" flt] by simp
  moreover have "DirectControlSuccessors g (op_ptr d) flt = []"
    using e DirectControlSuccessors_filter [of g "op_ptr d" flt] by simp
  moreover have "analyze_op d st = Inr st" using decl by (simp add: analyze_op_def)
  moreover have "\<forall>st'. AnalyzeOperation d st = Inr st' \<longrightarrow>
      per_resource_access_info st' = per_resource_access_info st"
    using AnalyzeOperation_declaration [OF _ decl] by blast
  ultimately show ?thesis by blast
qed

theorem declaration_is_edge_free_witness:
  "analyze_func ex_before ex_program = Inr ex_graph \<and>
   distinct (map op_ptr (region_ops ex_program)) \<and>
   Operation 0 VarHandleOp True None False [] [Value True False [7]] []
     \<in> set (region_ops ex_program) \<and>
   OpIsDeclaration (Operation 0 VarHandleOp True None False [] [Value True False [7]] []) \<and>
   0 \<notin> set (DirectControlPredecessors ex_graph 2 None) \<and>
   DirectControlSuccessors ex_graph 0 None = [] \<and>
   AnalyzeOperation (Operation 0 VarHandleOp True None False [] [Value True False [7]] [])
     ex_state = Inr ex_state"
proof -
  let ?d = "Operation 0 VarHandleOp True None False [] [Value True False [7]] []"
  have dist: "distinct (map op_ptr (region_ops ex_program))" by (simp add: ex_program_ops)
  have d: "?d \<in> set (region_ops ex_program)" by (simp add: ex_program_def)
  have decl: "OpIsDeclaration ?d" by (simp add: OpIsDeclaration_def)
  have "AnalyzeOperation ?d ex_state = Inr ex_state" by (simp add: analyze_op_def decl)
  then show ?thesis
    using declaration_is_edge_free [OF ex_program_graph dist d decl, of None ex_state]
      ex_program_graph dist d decl
    by simp
qed

text \<open>
  Claim C10. In a function whose operations are pairwise different, no operation is in
  its own predecessor list or in its own successor list. The reason is the order of edge
  emission: for a resource set without duplicates, every predecessor that edge emission
  gives an operation is mentioned by an access record of the state before the emission,
  so the operation itself, tracked only during its own emission, is not among them.
\<close>

theorem no_self_dependency:
  assumes g: "analyze_func isBeforeInBlock body = Inr g"
    and dist: "distinct (map op_ptr (region_ops body))"
  shows "p \<notin> set (DirectControlPredecessors g p flt) \<and>
         p \<notin> set (DirectControlSuccessors g p flt) \<and>
         (distinct resources \<longrightarrow>
            preds_of (emit_edges resources p read_only st) p \<subseteq> preds_of st p \<union> tracked_ops st)"
proof (rule analyze_func_mentioned [OF g])
  fix st1
  assume s1: "AnalyzeRegion body empty_analysis = Inr st1"
    and dp: "\<And>q. set (DirectControlPredecessors g q None) = preds_of st1 q"
    and ds: "\<And>q. set (DirectControlSuccessors g q None) = {k. q \<in> preds_of st1 k}"
  have "\<forall>q. q \<notin> preds_of st1 q"
    using Analyze_irreflexive(1) [OF s1 dist] by simp
  then have "p \<notin> set (DirectControlPredecessors g p None)"
    and "p \<notin> set (DirectControlSuccessors g p None)"
    by (simp_all add: dp ds)
  then show ?thesis
    using DirectControlPredecessors_filter [of g p flt]
      DirectControlSuccessors_filter [of g p flt] emit_edges_preds [of resources p read_only st]
    by blast
qed

theorem no_self_dependency_witness:
  "analyze_func ex_before ex_program = Inr ex_graph \<and>
   distinct (map op_ptr (region_ops ex_program)) \<and>
   DirectControlPredecessors ex_graph 5 None = [3, 4] \<and>
   5 \<notin> set (DirectControlPredecessors ex_graph 5 None) \<and>
   5 \<notin> set (DirectControlSuccessors ex_graph 5 None) \<and>
   distinct [7 :: int] \<and>
   preds_of (emit_edges [7] 5 False ex_state) 5 \<subseteq> preds_of ex_state 5 \<union> tracked_ops ex_state"
proof -
  have dist: "distinct (map op_ptr (region_ops ex_program))" by (simp add: ex_program_ops)
  have e: "DirectControlPredecessors ex_graph 5 None = [3, 4]"
    by (simp add: DirectControlPredecessors_def ex_graph_def)
  show ?thesis
    using no_self_dependency [OF ex_program_graph dist, of 5 None "[7]" False ex_state]
      ex_program_graph dist e
    by simp
qed

subsection \<open>Nested regions reach the graph of the function\<close>

lemma nested_region_ops:
  "r \<in> set (region_regions x) \<Longrightarrow> set (region_ops r) \<subseteq> set (region_ops x)"
  "r \<in> set (block_regions b) \<Longrightarrow> set (region_ops r) \<subseteq> set (block_ops b)"
  "r \<in> set (operation_regions y) \<Longrightarrow> set (region_ops r) \<subseteq> set (operation_ops y)"
  "r \<in> set (children_regions cs) \<Longrightarrow> set (region_ops r) \<subseteq> set (children_ops cs)"
  by (induction x and b and y and cs
      rule: region_regions_block_regions_operation_regions_children_regions.induct) auto

lemma walk_step_keys:
  "walk_step E A st st' \<Longrightarrow> E \<subseteq> A \<Longrightarrow> pred_keys st' \<subseteq> pred_keys st \<union> A"
  unfolding walk_step_def by blast

lemma walk_step_frame:
  "walk_step E A st st' \<Longrightarrow> q \<notin> A \<Longrightarrow>
     map_of (control_predecessors st') q = map_of (control_predecessors st) q"
  unfolding walk_step_def by blast

lemma move_child_own:
  assumes wf: "wf_preds c" and q: "q \<notin> pred_keys st"
  shows "map_of (control_predecessors (move_child_predecessors c st)) q =
           map_of (control_predecessors c) q"
proof -
  from q have "map_of (control_predecessors st) q = None" by (auto simp: pred_keys_def)
  then show ?thesis
    by (cases "map_of (control_predecessors c) q") (simp_all add: move_child_lookup [OF wf])
qed

lemma Analyze_nested:
  "AnalyzeRegion x st = Inr st' \<Longrightarrow> distinct (map op_ptr (region_ops x)) \<Longrightarrow>
     pred_keys st \<inter> op_ptr ` set (region_ops x) = {} \<Longrightarrow> r \<in> set (region_regions x) \<Longrightarrow>
     \<exists>c. AnalyzeRegion r empty_analysis = Inr c \<and>
         (\<forall>q \<in> op_ptr ` set (region_ops r).
            map_of (control_predecessors st') q = map_of (control_predecessors c) q)"
  "AnalyzeBlock b st = Inr st' \<Longrightarrow> distinct (map op_ptr (block_ops b)) \<Longrightarrow>
     pred_keys st \<inter> op_ptr ` set (block_ops b) = {} \<Longrightarrow> r \<in> set (block_regions b) \<Longrightarrow>
     \<exists>c. AnalyzeRegion r empty_analysis = Inr c \<and>
         (\<forall>q \<in> op_ptr ` set (region_ops r).
            map_of (control_predecessors st') q = map_of (control_predecessors c) q)"
  "AnalyzeOperation y st = Inr st' \<Longrightarrow> distinct (map op_ptr (operation_ops y)) \<Longrightarrow>
     pred_keys st \<inter> op_ptr ` set (operation_ops y) = {} \<Longrightarrow> r \<in> set (operation_regions y) \<Longrightarrow>
     \<exists>c. AnalyzeRegion r empty_analysis = Inr c \<and>
         (\<forall>q \<in> op_ptr ` set (region_ops r).
            map_of (control_predecessors st') q = map_of (control_predecessors c) q)"
  "AnalyzeChildren cs st = Inr st' \<Longrightarrow> distinct (map op_ptr (children_ops cs)) \<Longrightarrow>
     pred_keys st \<inter> op_ptr ` set (children_ops cs) = {} \<Longrightarrow> r \<in> set (children_regions cs) \<Longrightarrow>
     \<exists>c. AnalyzeRegion r empty_analysis = Inr c \<and>
         (\<forall>q \<in> op_ptr ` set (region_ops r).
            map_of (control_predecessors st') q = map_of (control_predecessors c) q)"
proof (induction x st and b st and y st and cs st arbitrary: st' and st' and st' and st'
    rule: AnalyzeRegion_AnalyzeBlock_AnalyzeOperation_AnalyzeChildren.induct)
  case (1 st)
  then show ?case by simp
next
  case (2 block blocks st)
  from 2(3) obtain st1 where s1: "AnalyzeBlock block st = Inr st1"
    and s2: "AnalyzeRegion blocks st1 = Inr st'"
    by (auto split: sum.splits)
  from 2(4) have d1: "distinct (map op_ptr (block_ops block))"
    and d2: "distinct (map op_ptr (region_ops blocks))"
    and dj: "op_ptr ` set (block_ops block) \<inter> op_ptr ` set (region_ops blocks) = {}"
    by auto
  from 2(5) have k1: "pred_keys st \<inter> op_ptr ` set (block_ops block) = {}"
    and k2: "pred_keys st \<inter> op_ptr ` set (region_ops blocks) = {}"
    by (auto simp: image_Un)
  from 2(6) consider "r \<in> set (block_regions block)" | "r \<in> set (region_regions blocks)"
    by auto
  then show ?case
  proof cases
    case 1
    from 2(1) [OF s1 d1 k1 1] obtain c where c: "AnalyzeRegion r empty_analysis = Inr c"
      and e: "\<forall>q \<in> op_ptr ` set (region_ops r).
        map_of (control_predecessors st1) q = map_of (control_predecessors c) q"
      by blast
    have "map_of (control_predecessors st') q = map_of (control_predecessors c) q"
      if "q \<in> op_ptr ` set (region_ops r)" for q
    proof -
      from that nested_region_ops(2) [OF 1] dj have "q \<notin> op_ptr ` set (region_ops blocks)"
        by blast
      from walk_step_frame [OF Analyze_walk_step(1) [OF s2] this] e that show ?thesis by simp
    qed
    with c show ?thesis by blast
  next
    case 2
    have "pred_keys st1 \<inter> op_ptr ` set (region_ops blocks) = {}"
      using walk_step_keys [OF Analyze_walk_step(2) [OF s1] effect_ptrs_subset] k2 dj by blast
    from "2.IH"(2) [OF s1 s2 d2 this 2] show ?thesis .
  qed
next
  case (3 st)
  then show ?case by simp
next
  case (4 op ops st)
  from 4(3) obtain st1 where s1: "AnalyzeOperation op st = Inr st1"
    and s2: "AnalyzeBlock ops st1 = Inr st'"
    by (auto split: sum.splits)
  from 4(4) have d1: "distinct (map op_ptr (operation_ops op))"
    and d2: "distinct (map op_ptr (block_ops ops))"
    and dj: "op_ptr ` set (operation_ops op) \<inter> op_ptr ` set (block_ops ops) = {}"
    by auto
  from 4(5) have k1: "pred_keys st \<inter> op_ptr ` set (operation_ops op) = {}"
    and k2: "pred_keys st \<inter> op_ptr ` set (block_ops ops) = {}"
    by (auto simp: image_Un)
  from 4(6) consider "r \<in> set (operation_regions op)" | "r \<in> set (block_regions ops)"
    by auto
  then show ?case
  proof cases
    case 1
    from 4(1) [OF s1 d1 k1 1] obtain c where c: "AnalyzeRegion r empty_analysis = Inr c"
      and e: "\<forall>q \<in> op_ptr ` set (region_ops r).
        map_of (control_predecessors st1) q = map_of (control_predecessors c) q"
      by blast
    have "map_of (control_predecessors st') q = map_of (control_predecessors c) q"
      if "q \<in> op_ptr ` set (region_ops r)" for q
    proof -
      from that nested_region_ops(3) [OF 1] dj have "q \<notin> op_ptr ` set (block_ops ops)"
        by blast
      from walk_step_frame [OF Analyze_walk_step(2) [OF s2] this] e that show ?thesis by simp
    qed
    with c show ?thesis by blast
  next
    case 2
    have "pred_keys st1 \<inter> op_ptr ` set (block_ops ops) = {}"
      using walk_step_keys [OF Analyze_walk_step(3) [OF s1] effect_ptrs_subset] k2 dj by blast
    from "4.IH"(2) [OF s1 s2 d2 this 2] show ?thesis .
  qed
next
  case (5 p c d i s operands results regions st)
  let ?op = "Operation p c d i s operands results regions"
  from 5(2) obtain st1 where s1: "AnalyzeChildren regions st = Inr st1"
    and s2: "analyze_op ?op st1 = Inr st'"
    by (auto split: sum.splits)
  from 5(3) have d1: "distinct (map op_ptr (children_ops regions))"
    and pn: "p \<notin> op_ptr ` set (children_ops regions)" by auto
  from 5(4) have k1: "pred_keys st \<inter> op_ptr ` set (children_ops regions) = {}" by auto
  from 5(5) have r: "r \<in> set (children_regions regions)" by simp
  from 5(1) [OF s1 d1 k1 r] obtain ch where ch: "AnalyzeRegion r empty_analysis = Inr ch"
    and e: "\<forall>q \<in> op_ptr ` set (region_ops r).
      map_of (control_predecessors st1) q = map_of (control_predecessors ch) q"
    by blast
  have "map_of (control_predecessors st') q = map_of (control_predecessors ch) q"
    if "q \<in> op_ptr ` set (region_ops r)" for q
  proof -
    from that nested_region_ops(4) [OF r] pn have "q \<notin> {op_ptr ?op}" by auto
    from walk_step_frame [OF analyze_op_walk_step [OF s2] this] e that show ?thesis by simp
  qed
  with ch show ?case by blast
next
  case (6 st)
  then show ?case by simp
next
  case (7 child children st)
  from 7(3) obtain ch where s1: "AnalyzeRegion child empty_analysis = Inr ch"
    and s2: "AnalyzeChildren children (move_child_predecessors ch st) = Inr st'"
    by (auto split: sum.splits)
  let ?m = "move_child_predecessors ch st"
  from 7(4) have d1: "distinct (map op_ptr (region_ops child))"
    and d2: "distinct (map op_ptr (children_ops children))"
    and dj: "op_ptr ` set (region_ops child) \<inter> op_ptr ` set (children_ops children) = {}"
    by auto
  from 7(5) have k1: "pred_keys st \<inter> op_ptr ` set (region_ops child) = {}"
    and k2: "pred_keys st \<inter> op_ptr ` set (children_ops children) = {}"
    by (auto simp: image_Un)
  have wf: "wf_preds ch" using Analyze_wf(1) [OF s1 wf_preds_empty] .
  have own: "map_of (control_predecessors st') q = map_of (control_predecessors ch) q"
    if "q \<in> op_ptr ` set (region_ops child)" for q
  proof -
    from that k1 have "q \<notin> pred_keys st" by blast
    from move_child_own [OF wf this]
    have m: "map_of (control_predecessors ?m) q = map_of (control_predecessors ch) q" .
    from that dj have "q \<notin> op_ptr ` set (children_ops children)" by blast
    from walk_step_frame [OF Analyze_walk_step(4) [OF s2, THEN conjunct1] this] m
    show ?thesis by simp
  qed
  from 7(6) consider "r = child" | "r \<in> set (region_regions child)"
    | "r \<in> set (children_regions children)"
    by auto
  then show ?case
  proof cases
    case 1
    with s1 own show ?thesis by blast
  next
    case 2
    from 7(1) [OF s1 d1 _ 2] obtain c where c: "AnalyzeRegion r empty_analysis = Inr c"
      and e: "\<forall>q \<in> op_ptr ` set (region_ops r).
        map_of (control_predecessors ch) q = map_of (control_predecessors c) q"
      by auto
    have "map_of (control_predecessors st') q = map_of (control_predecessors c) q"
      if "q \<in> op_ptr ` set (region_ops r)" for q
    proof -
      from that nested_region_ops(1) [OF 2] have "q \<in> op_ptr ` set (region_ops child)" by blast
      from own [OF this] e that show ?thesis by simp
    qed
    with c show ?thesis by blast
  next
    case 3
    have "pred_keys ?m \<inter> op_ptr ` set (children_ops children) = {}"
      using walk_step_keys [OF move_child_walk_step [OF wf Analyze_walk_step(1) [OF s1]]
          effect_ptrs_subset] k2 dj by blast
    from "7.IH"(2) [OF s1 s2 d2 this 3] show ?thesis .
  qed
qed

subsection \<open>Straight-line code\<close>

lemma AnalyzeBlock_append:
  "AnalyzeBlock (xs @ ys) st =
     (case AnalyzeBlock xs st of Inl e \<Rightarrow> Inl e | Inr st' \<Rightarrow> AnalyzeBlock ys st')"
  by (induction xs arbitrary: st) (simp_all split: sum.splits)

lemma AnalyzeRegion_concat: "AnalyzeRegion r st = AnalyzeBlock (concat r) st"
  by (induction r arbitrary: st) (simp_all add: AnalyzeBlock_append split: sum.splits)

lemma block_ops_append [simp]: "block_ops (xs @ ys) = block_ops xs @ block_ops ys"
  by (induction xs) simp_all

lemma region_ops_concat: "region_ops r = block_ops (concat r)"
  by (induction r) simp_all

lemma operation_ops_self: "x \<in> set (operation_ops x)"
  by (cases x) simp

lemma operation_ops_head: "\<exists>rest. operation_ops x = x # rest"
  by (cases x) simp


text \<open>
  One operation of the walk whose identity the state does not mention: after its nested
  regions, the access records are the same and the operation has no predecessors yet.
\<close>

lemma AnalyzeOperation_fresh:
  assumes a: "AnalyzeOperation x st = Inr st'"
    and d: "distinct (map op_ptr (operation_ops x))"
    and m: "op_ptr x \<notin> mentioned st"
  shows "\<exists>sm. analyze_op x sm = Inr st' \<and>
           per_resource_access_info sm = per_resource_access_info st \<and>
           preds_of sm (op_ptr x) = {}"
proof (cases x)
  case (Operation p c dl i s operands results regions)
  with a obtain sm where s1: "AnalyzeChildren regions st = Inr sm"
    and s2: "analyze_op x sm = Inr st'"
    by (auto split: sum.splits)
  from d Operation have pn: "op_ptr x \<notin> op_ptr ` set (children_ops regions)" by auto
  have "pred_keys sm \<subseteq> pred_keys st \<union> op_ptr ` set (children_ops regions)"
    using walk_step_keys [OF Analyze_walk_step(4) [OF s1, THEN conjunct1] effect_ptrs_subset] .
  with pn m mentioned_parts(2) [of st] have "op_ptr x \<notin> pred_keys sm" by blast
  then have "preds_of sm (op_ptr x) = {}" using preds_nonempty_key [of _ sm "op_ptr x"] by blast
  with s2 Analyze_walk_step(4) [OF s1] show ?thesis by blast
qed


lemma indirectly_tracked_pai:
  assumes "per_resource_access_info st' = per_resource_access_info st"
  shows "unknown_access_indirectly_tracked_by_resource st' r ro =
     unknown_access_indirectly_tracked_by_resource st r ro"
  unfolding unknown_access_indirectly_tracked_by_resource_def assms by (rule refl)

lemma emit_edges_single:
  assumes "r \<noteq> kUnknownResourceId"
  shows "emit_edges [r] p ro st =
       (if unknown_access_indirectly_tracked_by_resource st r ro
        then TrackAccess r p ro (AddPredecessorsForAccess r p ro st)
        else AddPredecessorsForAccess kUnknownResourceId p ro
               (TrackAccess r p ro (AddPredecessorsForAccess r p ro st)))"
proof -
  have n: "kUnknownResourceId \<notin> set [r]" using assms by simp
  have t: "unknown_access_indirectly_tracked_by_resource (AddPredecessorsForAccess r p ro st) r ro =
      unknown_access_indirectly_tracked_by_resource st r ro"
    by (rule indirectly_tracked_pai) simp
  show ?thesis
    unfolding emit_edges_known [OF n] by (simp add: Let_def t)
qed

lemma analyze_op_write:
  assumes "analyze_op x sm = Inr st'" and "writes_resource x r"
  shows "st' = emit_edges [r] (op_ptr x) False sm"
proof -
  from assms(2) have "\<not> OpIsDeclaration x" "GetResourceInfoForOp x \<noteq> None"
    "OpIsReadOnly x = False" "accessed_resources x = [r]"
    by (simp_all add: writes_resource_def accessed_resources_def)
  then have "analyze_op x sm = Inr (emit_edges [r] (op_ptr x) False sm)"
    by (auto simp: analyze_op_def)
  with assms(1) show ?thesis by simp
qed

lemma analyze_op_read:
  assumes "analyze_op x sm = Inr st'" and "reads_resource x r"
  shows "st' = emit_edges [r] (op_ptr x) True sm"
proof -
  from assms(2) have "\<not> OpIsDeclaration x" "GetResourceInfoForOp x \<noteq> None"
    "OpIsReadOnly x = True" "accessed_resources x = [r]"
    by (simp_all add: reads_resource_def accessed_resources_def OpIsReadOnly_def)
  then have "analyze_op x sm = Inr (emit_edges [r] (op_ptr x) True sm)"
    by (auto simp: analyze_op_def)
  with assms(1) show ?thesis by simp
qed

lemma Track_known_write:
  "r \<noteq> kUnknownResourceId \<Longrightarrow>
     map_of (per_resource_access_info (TrackAccess r p False st)) r = Some (written_by p)"
  by (simp add: Track_known_same written_by_def)

text \<open>A write of one known resource leaves the record of a write.\<close>

lemma write_step_record:
  assumes "analyze_op x sm = Inr st'" and "writes_resource x r" and "r \<noteq> kUnknownResourceId"
  shows "map_of (per_resource_access_info st') r = Some (written_by (op_ptr x))"
  using analyze_op_write [OF assms(1,2)] assms(3)
  by (simp add: emit_edges_single Track_known_write)


text \<open>A read of a resource whose record tracks the unknown write for reads.\<close>

lemma read_step:
  assumes a: "analyze_op x sm = Inr st'" and rd: "reads_resource x r"
    and r: "r \<noteq> kUnknownResourceId"
    and i: "map_of (per_resource_access_info sm) r = Some info"
    and t: "tracked_last_unknown_write_for_read info"
  shows "preds_of st' (op_ptr x) = preds_of sm (op_ptr x) \<union> set_option (last_write info)"
    and "map_of (per_resource_access_info st') r =
           Some (info\<lparr>reads_since_last_write := reads_since_last_write info @ [op_ptr x],
                      tracked_last_unknown_write_for_write := True\<rparr>)"
proof -
  have tr: "unknown_access_indirectly_tracked_by_resource sm r True"
    using i t by (simp add: unknown_access_indirectly_tracked_by_resource_def)
  have e: "st' = TrackAccess r (op_ptr x) True (AddPredecessorsForAccess r (op_ptr x) True sm)"
    using analyze_op_read [OF a rd] r tr by (simp add: emit_edges_single)
  show "preds_of st' (op_ptr x) = preds_of sm (op_ptr x) \<union> set_option (last_write info)"
    by (simp add: e AddPred_preds_Some [OF i])
  show "map_of (per_resource_access_info st') r =
           Some (info\<lparr>reads_since_last_write := reads_since_last_write info @ [op_ptr x],
                      tracked_last_unknown_write_for_write := True\<rparr>)"
    using i by (simp add: e Track_known_same [OF r] find_or_def)
qed

text \<open>A write of a resource with reads since its last write, which track the unknown accesses.\<close>

lemma write_after_reads_step:
  assumes a: "analyze_op x sm = Inr st'" and wr: "writes_resource x r"
    and r: "r \<noteq> kUnknownResourceId"
    and i: "map_of (per_resource_access_info sm) r = Some info"
    and n: "reads_since_last_write info \<noteq> []"
    and t: "tracked_last_unknown_write_for_write info" "tracked_last_unknown_read info"
  shows "preds_of st' (op_ptr x) = preds_of sm (op_ptr x) \<union> set (reads_since_last_write info)"
proof -
  have tr: "unknown_access_indirectly_tracked_by_resource sm r False"
    using i t by (simp add: unknown_access_indirectly_tracked_by_resource_def)
  have e: "st' = TrackAccess r (op_ptr x) False (AddPredecessorsForAccess r (op_ptr x) False sm)"
    using analyze_op_write [OF a wr] r tr by (simp add: emit_edges_single)
  show ?thesis using n by (simp add: e AddPred_preds_Some [OF i])
qed

lemma nested_region_distinct:
  "r \<in> set (region_regions x) \<Longrightarrow> distinct (map op_ptr (region_ops x)) \<Longrightarrow>
     distinct (map op_ptr (region_ops r))"
  "r \<in> set (block_regions b) \<Longrightarrow> distinct (map op_ptr (block_ops b)) \<Longrightarrow>
     distinct (map op_ptr (region_ops r))"
  "r \<in> set (operation_regions y) \<Longrightarrow> distinct (map op_ptr (operation_ops y)) \<Longrightarrow>
     distinct (map op_ptr (region_ops r))"
  "r \<in> set (children_regions cs) \<Longrightarrow> distinct (map op_ptr (children_ops cs)) \<Longrightarrow>
     distinct (map op_ptr (region_ops r))"
  by (induction x and b and y and cs
      rule: region_regions_block_regions_operation_regions_children_regions.induct) auto

text \<open>
  Every region of a function, its body or a nested region, is analysed on its own, and
  the finalized graph holds its predecessor sets.
\<close>

lemma analyze_func_region_graph:
  assumes g: "analyze_func cmp body = Inr g"
    and dist: "distinct (map op_ptr (region_ops body))"
    and r: "r \<in> set (body # region_regions body)"
  shows "\<exists>c. AnalyzeRegion r empty_analysis = Inr c \<and>
           distinct (map op_ptr (region_ops r)) \<and>
           (\<forall>q \<in> op_ptr ` set (region_ops r).
              set (DirectControlPredecessors g q None) = preds_of c q)"
proof -
  from analyze_func_region [OF g] obtain st1 where
    s1: "AnalyzeRegion body empty_analysis = Inr st1" by blast
  have dp: "set (DirectControlPredecessors g q None) = preds_of st1 q" for q
    using analyze_func_predecessors [OF g s1] .
  show ?thesis
  proof (cases "r = body")
    case True
    with s1 dist dp show ?thesis by blast
  next
    case False
    with r have n: "r \<in> set (region_regions body)" by simp
    from Analyze_nested(1) [OF s1 dist _ n] obtain c where
      c: "AnalyzeRegion r empty_analysis = Inr c"
      and e: "\<forall>q \<in> op_ptr ` set (region_ops r).
        map_of (control_predecessors st1) q = map_of (control_predecessors c) q"
      by auto
    have "set (DirectControlPredecessors g q None) = preds_of c q"
      if "q \<in> op_ptr ` set (region_ops r)" for q
      using e that preds_of_cong [of st1 q c] dp [of q] by blast
    with c nested_region_distinct(1) [OF n dist] show ?thesis by blast
  qed
qed

lemma frame_block:
  "AnalyzeBlock b st = Inr st' \<Longrightarrow> q \<notin> op_ptr ` set (block_ops b) \<Longrightarrow>
     preds_of st' q = preds_of st q"
  using walk_step_frame [OF Analyze_walk_step(2)] preds_of_cong by blast

lemma AnalyzeBlock_Cons_Inr:
  "AnalyzeBlock (x # xs) st = Inr st' \<Longrightarrow>
     \<exists>s. AnalyzeOperation x st = Inr s \<and> AnalyzeBlock xs s = Inr st'"
  by (auto split: sum.splits)

lemma AnalyzeBlock_append_Inr:
  "AnalyzeBlock (xs @ ys) st = Inr st' \<Longrightarrow>
     \<exists>s. AnalyzeBlock xs st = Inr s \<and> AnalyzeBlock ys s = Inr st'"
  by (auto simp: AnalyzeBlock_append split: sum.splits)

text \<open>
  The walk of a block, cut at one of its operations: the state before the operation, the
  state after its nested regions, and the state after it.
\<close>

lemma AnalyzeBlock_at:
  assumes c: "AnalyzeBlock (xs @ x # ys) empty_analysis = Inr c"
    and dist: "distinct (map op_ptr (block_ops (xs @ x # ys)))"
  shows "\<exists>s sm s'. AnalyzeBlock xs empty_analysis = Inr s \<and>
           AnalyzeBlock (xs @ [x]) empty_analysis = Inr s' \<and>
           per_resource_access_info sm = per_resource_access_info s \<and>
           preds_of sm (op_ptr x) = {} \<and>
           analyze_op x sm = Inr s' \<and>
           preds_of c (op_ptr x) = preds_of s' (op_ptr x)"
proof -
  from AnalyzeBlock_append_Inr [OF c] obtain s where
    s: "AnalyzeBlock xs empty_analysis = Inr s" and c1: "AnalyzeBlock (x # ys) s = Inr c"
    by blast
  from AnalyzeBlock_Cons_Inr [OF c1] obtain s' where
    s': "AnalyzeOperation x s = Inr s'" and c2: "AnalyzeBlock ys s' = Inr c"
    by blast
  have e: "block_ops (xs @ x # ys) = block_ops xs @ operation_ops x @ block_ops ys" by simp
  from dist have d: "distinct (map op_ptr (operation_ops x))"
    and dj1: "op_ptr ` set (block_ops xs) \<inter> op_ptr ` set (operation_ops x) = {}"
    and dj2: "op_ptr ` set (operation_ops x) \<inter> op_ptr ` set (block_ops ys) = {}"
    unfolding e by auto
  have p: "op_ptr x \<in> op_ptr ` set (operation_ops x)" by (simp add: operation_ops_self)
  have "mentioned s \<subseteq> op_ptr ` set (block_ops xs)" using Analyze_mentioned(2) [OF s] by simp
  with p dj1 have f: "op_ptr x \<notin> mentioned s" by blast
  from AnalyzeOperation_fresh [OF s' d f] obtain sm where
    sm: "analyze_op x sm = Inr s'" "per_resource_access_info sm = per_resource_access_info s"
      "preds_of sm (op_ptr x) = {}"
    by blast
  from p dj2 have "op_ptr x \<notin> op_ptr ` set (block_ops ys)" by blast
  from frame_block [OF c2 this] have fr: "preds_of c (op_ptr x) = preds_of s' (op_ptr x)" .
  have "AnalyzeBlock (xs @ [x]) empty_analysis = Inr s'"
    using s s' by (simp add: AnalyzeBlock_append)
  with s sm fr show ?thesis by blast
qed

text \<open>The scenario of a write, two reads and a write of one resource, in one region.\<close>

lemma write_reads_write_block:
  assumes c: "AnalyzeBlock (pre @ [W1, R1a, R1b, W2] @ post) empty_analysis = Inr c"
    and dist: "distinct (map op_ptr (block_ops (pre @ [W1, R1a, R1b, W2] @ post)))"
    and r: "r \<noteq> kUnknownResourceId"
    and w1: "writes_resource W1 r" and r1a: "reads_resource R1a r"
    and r1b: "reads_resource R1b r" and w2: "writes_resource W2 r"
  shows "preds_of c (op_ptr R1a) = {op_ptr W1} \<and> preds_of c (op_ptr R1b) = {op_ptr W1} \<and>
         preds_of c (op_ptr W2) = {op_ptr R1a, op_ptr R1b}"
proof -
  have e1: "pre @ [W1, R1a, R1b, W2] @ post = pre @ W1 # ([R1a, R1b, W2] @ post)"
    and e2: "pre @ [W1, R1a, R1b, W2] @ post = (pre @ [W1]) @ R1a # ([R1b, W2] @ post)"
    and e3: "pre @ [W1, R1a, R1b, W2] @ post = (pre @ [W1, R1a]) @ R1b # ([W2] @ post)"
    and e4: "pre @ [W1, R1a, R1b, W2] @ post = (pre @ [W1, R1a, R1b]) @ W2 # post"
    by simp_all
  from AnalyzeBlock_at [OF c [unfolded e1] dist [unfolded e1]] obtain sm1 s1 where
    t1: "AnalyzeBlock (pre @ [W1]) empty_analysis = Inr s1"
    and a1: "analyze_op W1 sm1 = Inr s1"
    by blast
  have i1: "map_of (per_resource_access_info s1) r = Some (written_by (op_ptr W1))"
    using write_step_record [OF a1 w1 r] .
  from AnalyzeBlock_at [OF c [unfolded e2] dist [unfolded e2]] t1 obtain sm2 s2 where
    t2: "AnalyzeBlock ((pre @ [W1]) @ [R1a]) empty_analysis = Inr s2"
    and e2: "per_resource_access_info sm2 = per_resource_access_info s1"
    and n2: "preds_of sm2 (op_ptr R1a) = {}"
    and a2: "analyze_op R1a sm2 = Inr s2"
    and f2: "preds_of c (op_ptr R1a) = preds_of s2 (op_ptr R1a)"
    by auto
  let ?i2 = "(written_by (op_ptr W1))\<lparr>reads_since_last_write := [op_ptr R1a]\<rparr>"
  have q2: "preds_of s2 (op_ptr R1a) = {op_ptr W1}"
    using read_step(1) [OF a2 r1a r, of "written_by (op_ptr W1)"] i1 e2 n2
    by (simp add: written_by_def)
  have i2: "map_of (per_resource_access_info s2) r = Some ?i2"
    using read_step(2) [OF a2 r1a r, of "written_by (op_ptr W1)"] i1 e2
    by (simp add: written_by_def)
  from t2 have t2': "AnalyzeBlock (pre @ [W1, R1a]) empty_analysis = Inr s2" by simp
  from AnalyzeBlock_at [OF c [unfolded e3] dist [unfolded e3]] t2' obtain sm3 s3 where
    t3: "AnalyzeBlock ((pre @ [W1, R1a]) @ [R1b]) empty_analysis = Inr s3"
    and e3: "per_resource_access_info sm3 = per_resource_access_info s2"
    and n3: "preds_of sm3 (op_ptr R1b) = {}"
    and a3: "analyze_op R1b sm3 = Inr s3"
    and f3: "preds_of c (op_ptr R1b) = preds_of s3 (op_ptr R1b)"
    by auto
  let ?i3 = "(written_by (op_ptr W1))\<lparr>reads_since_last_write := [op_ptr R1a, op_ptr R1b]\<rparr>"
  have q3: "preds_of s3 (op_ptr R1b) = {op_ptr W1}"
    using read_step(1) [OF a3 r1b r, of ?i2] i2 e3 n3 by (simp add: written_by_def)
  have i3: "map_of (per_resource_access_info s3) r = Some ?i3"
    using read_step(2) [OF a3 r1b r, of ?i2] i2 e3 by (simp add: written_by_def)
  from t3 have t3': "AnalyzeBlock (pre @ [W1, R1a, R1b]) empty_analysis = Inr s3" by simp
  from AnalyzeBlock_at [OF c [unfolded e4] dist [unfolded e4]] t3' obtain sm4 s4 where
    e4: "per_resource_access_info sm4 = per_resource_access_info s3"
    and n4: "preds_of sm4 (op_ptr W2) = {}"
    and a4: "analyze_op W2 sm4 = Inr s4"
    and f4: "preds_of c (op_ptr W2) = preds_of s4 (op_ptr W2)"
    by auto
  have q4: "preds_of s4 (op_ptr W2) = {op_ptr R1a, op_ptr R1b}"
    using write_after_reads_step [OF a4 w2 r, of ?i3] i3 e4 n4 by (simp add: written_by_def)
  from q2 q3 q4 f2 f3 f4 show ?thesis by simp
qed

text \<open>
  Claim C2. In any region of a function whose operations are pairwise different, for a
  write \<open>W1\<close> of a known resource followed directly by the reads \<open>R1a\<close> and \<open>R1b\<close>
  and the write \<open>W2\<close> of the same resource: the predecessors of each read in the
  finalized graph are exactly \<open>W1\<close>, and the predecessors of \<open>W2\<close> are exactly the two
  reads, so \<open>W1\<close> is not among them.
\<close>

theorem write_reads_write:
  assumes g: "analyze_func isBeforeInBlock body = Inr g"
    and dist: "distinct (map op_ptr (region_ops body))"
    and reg: "region \<in> set (body # region_regions body)"
    and shape: "concat region = pre @ [W1, R1a, R1b, W2] @ post"
    and r: "R1 \<noteq> kUnknownResourceId"
    and w1: "writes_resource W1 R1" and r1a: "reads_resource R1a R1"
    and r1b: "reads_resource R1b R1" and w2: "writes_resource W2 R1"
  shows "set (DirectControlPredecessors g (op_ptr R1a) None) = {op_ptr W1} \<and>
         set (DirectControlPredecessors g (op_ptr R1b) None) = {op_ptr W1} \<and>
         set (DirectControlPredecessors g (op_ptr W2) None) = {op_ptr R1a, op_ptr R1b} \<and>
         op_ptr W1 \<notin> set (DirectControlPredecessors g (op_ptr W2) None)"
proof -
  from analyze_func_region_graph [OF g dist reg] obtain c where
    c: "AnalyzeRegion region empty_analysis = Inr c"
    and d: "distinct (map op_ptr (region_ops region))"
    and e: "\<forall>q \<in> op_ptr ` set (region_ops region).
      set (DirectControlPredecessors g q None) = preds_of c q"
    by blast
  let ?b = "pre @ [W1, R1a, R1b, W2] @ post"
  have cb: "AnalyzeBlock ?b empty_analysis = Inr c"
    using c by (simp add: AnalyzeRegion_concat shape)
  have db: "distinct (map op_ptr (block_ops ?b))"
    using d by (simp only: region_ops_concat shape)
  have ops: "region_ops region = block_ops ?b" by (simp only: region_ops_concat shape)
  have mem: "op_ptr R1a \<in> op_ptr ` set (region_ops region)"
    "op_ptr R1b \<in> op_ptr ` set (region_ops region)"
    "op_ptr W2 \<in> op_ptr ` set (region_ops region)"
    unfolding ops using operation_ops_self [of R1a] operation_ops_self [of R1b]
      operation_ops_self [of W2] by auto
  have ne: "op_ptr W1 \<noteq> op_ptr R1a" "op_ptr W1 \<noteq> op_ptr R1b"
    using db operation_ops_head [of W1] operation_ops_head [of R1a] operation_ops_head [of R1b]
    by auto
  from e mem have
    "set (DirectControlPredecessors g (op_ptr R1a) None) = preds_of c (op_ptr R1a)"
    "set (DirectControlPredecessors g (op_ptr R1b) None) = preds_of c (op_ptr R1b)"
    "set (DirectControlPredecessors g (op_ptr W2) None) = preds_of c (op_ptr W2)"
    by blast+
  with write_reads_write_block [OF cb db r w1 r1a r1b w2] ne show ?thesis by simp
qed

theorem write_reads_write_witness:
  "analyze_func ex_before ex_program = Inr ex_graph \<and>
   distinct (map op_ptr (region_ops ex_program)) \<and>
   writes_resource (ex_op 2 (Some kWrite) [Value True False [7]]) 7 \<and>
   reads_resource (ex_op 3 (Some kRead) [Value True False [7]]) 7 \<and>
   reads_resource (ex_op 4 (Some kRead) [Value True False [7]]) 7 \<and>
   writes_resource (Operation 5 OtherOp True (Some kWrite) True [Value True False [7]] []
         [[[ex_op 6 (Some kWrite) [Value True False [8]],
            ex_op 7 (Some kReadWrite) [Value True False [8]]]]]) 7 \<and>
   set (DirectControlPredecessors ex_graph 3 None) = {2} \<and>
   set (DirectControlPredecessors ex_graph 4 None) = {2} \<and>
   set (DirectControlPredecessors ex_graph 5 None) = {3, 4} \<and>
   2 \<notin> set (DirectControlPredecessors ex_graph 5 None)"
proof -
  let ?W1 = "ex_op 2 (Some kWrite) [Value True False [7]]"
  let ?R1a = "ex_op 3 (Some kRead) [Value True False [7]]"
  let ?R1b = "ex_op 4 (Some kRead) [Value True False [7]]"
  let ?W2 = "Operation 5 OtherOp True (Some kWrite) True [Value True False [7]] []
         [[[ex_op 6 (Some kWrite) [Value True False [8]],
            ex_op 7 (Some kReadWrite) [Value True False [8]]]]]"
  let ?pre = "[Operation 0 VarHandleOp True None False [] [Value True False [7]] [],
       ex_op 1 None [], ex_op 8 (Some kWrite) [Value True False [9]]]"
  have dist: "distinct (map op_ptr (region_ops ex_program))" by (simp add: ex_program_ops)
  have reg: "ex_program \<in> set (ex_program # region_regions ex_program)" by simp
  have shape: "concat ex_program = ?pre @ [?W1, ?R1a, ?R1b, ?W2] @ []"
    by (simp add: ex_program_def)
  have r: "(7 :: int) \<noteq> kUnknownResourceId" by (simp add: kUnknownResourceId_def)
  have w1: "writes_resource ?W1 7"
    by (simp add: writes_resource_def ex_op_def OpIsDeclaration_def GetResourceInfoForOp_def
        OpIsReadOnly_def FindAccessedResources_def filter_resources_def)
  have r1a: "reads_resource ?R1a 7"
    by (simp add: reads_resource_def ex_op_def OpIsDeclaration_def GetResourceInfoForOp_def
        OpIsReadOnly_def FindAccessedResources_def filter_resources_def)
  have r1b: "reads_resource ?R1b 7"
    by (simp add: reads_resource_def ex_op_def OpIsDeclaration_def GetResourceInfoForOp_def
        OpIsReadOnly_def FindAccessedResources_def filter_resources_def)
  have w2: "writes_resource ?W2 7"
    by (simp add: writes_resource_def ex_op_def OpIsDeclaration_def GetResourceInfoForOp_def
        OpIsReadOnly_def FindAccessedResources_def filter_resources_def)
  have "op_ptr ?W1 = 2" "op_ptr ?R1a = 3" "op_ptr ?R1b = 4" "op_ptr ?W2 = 5"
    by (simp_all add: ex_op_def)
  with write_reads_write [OF ex_program_graph dist reg shape r w1 r1a r1b w2]
  show ?thesis using ex_program_graph dist w1 r1a r1b w2 by simp
qed

subsection \<open>A write after a write to the unknown resource\<close>

lemma unknown_write_step:
  assumes a: "analyze_op x sm = Inr st'" and w: "writes_unknown x"
  shows "per_resource_access_info st' = [(kUnknownResourceId, written_by (op_ptr x))]"
proof -
  from w have n: "\<not> OpIsDeclaration x"
    "\<not> (GetResourceInfoForOp x = None \<and> OpIsKnownToHaveNoSideEffect x)"
    and ro: "OpIsReadOnly x = False"
    and u: "kUnknownResourceId \<in> set (accessed_resources x)"
    by (simp_all add: writes_unknown_def)
  from u have ne: "accessed_resources x \<noteq> []" by auto
  have "analyze_op x sm = Inr (emit_edges (accessed_resources x) (op_ptr x) False sm)"
    using n ne ro by (auto simp: analyze_op_def Let_def)
  with a have "st' = emit_edges (accessed_resources x) (op_ptr x) False sm" by simp
  then show ?thesis
    by (simp add: emit_edges_unknown [OF u] TrackAccess_unknown_write written_by_def)
qed

lemma analyze_op_bypass:
  assumes a: "analyze_op x sm = Inr st'" and b: "bypasses x r"
  shows "map_of (per_resource_access_info st') kUnknownResourceId =
           map_of (per_resource_access_info sm) kUnknownResourceId \<and>
         map_of (per_resource_access_info st') r = map_of (per_resource_access_info sm) r"
proof (cases "OpIsDeclaration x \<or>
    (GetResourceInfoForOp x = None \<and> OpIsKnownToHaveNoSideEffect x)")
  case True
  then have "analyze_op x sm = Inr sm" by (auto simp: analyze_op_def)
  with a show ?thesis by simp
next
  case False
  with b have k: "GetResourceInfoForOp x \<noteq> None"
    and u: "kUnknownResourceId \<notin> set (FindAccessedResources x)"
    and r: "r \<notin> set (FindAccessedResources x)"
    by (auto simp: bypasses_def)
  from k have acc: "accessed_resources x = FindAccessedResources x"
    by (simp add: accessed_resources_def)
  from analyze_op_cases [OF a] show ?thesis
  proof
    assume "st' = sm"
    then show ?thesis by simp
  next
    assume "\<not> OpIsDeclaration x \<and>
      st' = emit_edges (accessed_resources x) (op_ptr x) (OpIsReadOnly x) sm"
    then have e: "st' = emit_edges (FindAccessedResources x) (op_ptr x) (OpIsReadOnly x) sm"
      by (simp add: acc)
    show ?thesis
      unfolding e emit_edges_known [OF u]
      using known_loop_pai_other [OF u u, of "op_ptr x" "OpIsReadOnly x" sm False]
        known_loop_pai_other [OF u r, of "op_ptr x" "OpIsReadOnly x" sm False]
      by simp
  qed
qed

lemma AnalyzeOperation_bypass:
  assumes a: "AnalyzeOperation x st = Inr st'" and b: "bypasses x r"
  shows "map_of (per_resource_access_info st') kUnknownResourceId =
           map_of (per_resource_access_info st) kUnknownResourceId \<and>
         map_of (per_resource_access_info st') r = map_of (per_resource_access_info st) r"
proof (cases x)
  case (Operation p c dl i s operands results regions)
  with a obtain sm where s1: "AnalyzeChildren regions st = Inr sm"
    and s2: "analyze_op x sm = Inr st'"
    by (auto split: sum.splits)
  from Analyze_walk_step(4) [OF s1]
  have "per_resource_access_info sm = per_resource_access_info st" by simp
  with analyze_op_bypass [OF s2 b] show ?thesis by simp
qed

lemma AnalyzeBlock_bypass:
  "AnalyzeBlock mid st = Inr st' \<Longrightarrow> \<forall>x \<in> set mid. bypasses x r \<Longrightarrow>
     map_of (per_resource_access_info st') kUnknownResourceId =
       map_of (per_resource_access_info st) kUnknownResourceId \<and>
     map_of (per_resource_access_info st') r = map_of (per_resource_access_info st) r"
proof (induction mid arbitrary: st)
  case Nil
  then show ?case by simp
next
  case (Cons x mid)
  from AnalyzeBlock_Cons_Inr [OF Cons.prems(1)] obtain s where
    s: "AnalyzeOperation x st = Inr s" and t: "AnalyzeBlock mid s = Inr st'" by blast
  from Cons.prems(2) have b: "bypasses x r" and bs: "\<forall>y \<in> set mid. bypasses y r" by simp_all
  from AnalyzeOperation_bypass [OF s b] Cons.IH [OF t bs] show ?case by simp
qed

lemma write_after_unknown_step:
  assumes a: "analyze_op x sm = Inr st'" and wr: "writes_resource x r"
    and r: "r \<noteq> kUnknownResourceId"
    and n: "map_of (per_resource_access_info sm) r = None"
    and u: "map_of (per_resource_access_info sm) kUnknownResourceId = Some (written_by w)"
  shows "w \<in> preds_of st' (op_ptr x)"
proof -
  let ?p = "op_ptr x"
  have tr: "\<not> unknown_access_indirectly_tracked_by_resource sm r False"
    using n by (simp add: unknown_access_indirectly_tracked_by_resource_def)
  have same: "AddPredecessorsForAccess r ?p False sm = sm"
    using n by (rule AddPred_preds_None)
  have e: "st' = AddPredecessorsForAccess kUnknownResourceId ?p False (TrackAccess r ?p False sm)"
    using analyze_op_write [OF a wr] r tr by (simp add: emit_edges_single same)
  have "map_of (per_resource_access_info (TrackAccess r ?p False sm)) kUnknownResourceId =
      Some (written_by w)"
    using Track_known_other [OF r, of kUnknownResourceId ?p False sm] r u by simp
  from AddPred_preds_Some [OF this, of ?p False] show ?thesis
    by (simp add: e written_by_def)
qed

lemma unknown_write_then_write_block:
  assumes c: "AnalyzeBlock (pre @ [Wu] @ mid @ [W1] @ post) empty_analysis = Inr c"
    and dist: "distinct (map op_ptr (block_ops (pre @ [Wu] @ mid @ [W1] @ post)))"
    and r: "r \<noteq> kUnknownResourceId"
    and wu: "writes_unknown Wu" and w1: "writes_resource W1 r"
    and mid: "\<forall>x \<in> set mid. bypasses x r"
  shows "op_ptr Wu \<in> preds_of c (op_ptr W1)"
proof -
  have e1: "pre @ [Wu] @ mid @ [W1] @ post = pre @ Wu # (mid @ [W1] @ post)"
    and e2: "pre @ [Wu] @ mid @ [W1] @ post = (pre @ [Wu] @ mid) @ W1 # post"
    by simp_all
  from AnalyzeBlock_at [OF c [unfolded e1] dist [unfolded e1]] obtain sm1 s1 where
    t1: "AnalyzeBlock (pre @ [Wu]) empty_analysis = Inr s1"
    and a1: "analyze_op Wu sm1 = Inr s1"
    by blast
  have i1: "per_resource_access_info s1 = [(kUnknownResourceId, written_by (op_ptr Wu))]"
    using unknown_write_step [OF a1 wu] .
  from AnalyzeBlock_at [OF c [unfolded e2] dist [unfolded e2]] obtain s sm2 s2 where
    t2: "AnalyzeBlock (pre @ [Wu] @ mid) empty_analysis = Inr s"
    and e: "per_resource_access_info sm2 = per_resource_access_info s"
    and a2: "analyze_op W1 sm2 = Inr s2"
    and f2: "preds_of c (op_ptr W1) = preds_of s2 (op_ptr W1)"
    by blast
  from t2 have "AnalyzeBlock ((pre @ [Wu]) @ mid) empty_analysis = Inr s" by simp
  with t1 have m: "AnalyzeBlock mid s1 = Inr s" by (simp only: AnalyzeBlock_append sum.case)
  from AnalyzeBlock_bypass [OF m mid] i1 r
  have u: "map_of (per_resource_access_info sm2) kUnknownResourceId =
      Some (written_by (op_ptr Wu))"
    and n: "map_of (per_resource_access_info sm2) r = None"
    by (simp_all add: e)
  from write_after_unknown_step [OF a2 w1 r n u] f2 show ?thesis by simp
qed

lemma ex_op_classes:
  "writes_unknown (ex_op p None [])"
  "writes_resource (ex_op p (Some kWrite) [Value True False [r]]) r"
  "reads_resource (ex_op p (Some kRead) [Value True False [r]]) r"
  by (simp_all add: writes_unknown_def writes_resource_def reads_resource_def ex_op_def
      OpIsDeclaration_def GetResourceInfoForOp_def OpIsReadOnly_def
      OpIsKnownToHaveNoSideEffect_def accessed_resources_def UnknownResourceSet_def
      FindAccessedResources_def filter_resources_def)

text \<open>
  Claim C1, as stated, fails: after a write to the unknown resource, the second of two
  later writes of a known resource has the first of them as its only predecessor, not the
  unknown write.
\<close>

theorem later_write_skips_unknown_write:
  "writes_unknown (ex_op 1 None []) \<and>
   writes_resource (ex_op 3 (Some kWrite) [Value True False [7]]) 7 \<and>
   concat ex_two_writes =
     [ex_op 1 None [], ex_op 2 (Some kWrite) [Value True False [7]],
      ex_op 3 (Some kWrite) [Value True False [7]]] \<and>
   analyze_func ex_before ex_two_writes = Inr ex_two_writes_graph \<and>
   DirectControlPredecessors ex_two_writes_graph 3 None = [2] \<and>
   1 \<notin> set (DirectControlPredecessors ex_two_writes_graph 3 None)"
proof -
  have "analyze_func ex_before ex_two_writes = Inr ex_two_writes_graph"
    by (simp add: analyze_func_def AnalyzeFunction_def ex_two_writes_def ex_op_def
      ex_two_writes_graph_def
      written_by_def empty_analysis_def analyze_op_def OpIsDeclaration_def
      GetResourceInfoForOp_def OpIsKnownToHaveNoSideEffect_def OpIsReadOnly_def
      accessed_resources_def FindAccessedResources_def filter_resources_def
      UnknownResourceSet_def emit_edges_def Let_def kUnknownResourceId_def
      AddPredecessorsForAccess_def TrackAccess_def
      unknown_access_indirectly_tracked_by_resource_def find_or_def new_access_info_def
      populate_sorted_def push_back_def sort_entries_def llvm_sort_def ex_before_def)
  moreover have "DirectControlPredecessors ex_two_writes_graph 3 None = [2]"
    by (simp add: DirectControlPredecessors_def ex_two_writes_graph_def)
  ultimately show ?thesis
    by (simp add: ex_op_classes ex_two_writes_def)
qed

text \<open>
  Claim C1, amended. \<^verbatim>\<open>TrackAccess\<close> with the unknown resource and a write access
  leaves exactly one access record, the one of the unknown resource, with the operation
  as last write. Consequently, in any region of a function whose operations are pairwise
  different, a write \<open>Wu\<close> to the unknown resource is a predecessor in the finalized
  graph of a later write \<open>W1\<close> of exactly one known resource \<open>R1\<close>, provided every
  operation of the region between them is skipped by the walker or accesses only known
  resources other than \<open>R1\<close>.
\<close>

theorem unknown_write_precedes_write:
  assumes g: "analyze_func isBeforeInBlock body = Inr g"
    and dist: "distinct (map op_ptr (region_ops body))"
    and reg: "region \<in> set (body # region_regions body)"
    and shape: "concat region = pre @ [Wu] @ mid @ [W1] @ post"
    and r: "R1 \<noteq> kUnknownResourceId"
    and wu: "writes_unknown Wu" and w1: "writes_resource W1 R1"
    and mid: "\<forall>x \<in> set mid. bypasses x R1"
  shows "per_resource_access_info (TrackAccess kUnknownResourceId op False st) =
           [(kUnknownResourceId, written_by op)] \<and>
         op_ptr Wu \<in> set (DirectControlPredecessors g (op_ptr W1) None)"
proof -
  from analyze_func_region_graph [OF g dist reg] obtain c where
    c: "AnalyzeRegion region empty_analysis = Inr c"
    and d: "distinct (map op_ptr (region_ops region))"
    and e: "\<forall>q \<in> op_ptr ` set (region_ops region).
      set (DirectControlPredecessors g q None) = preds_of c q"
    by blast
  let ?b = "pre @ [Wu] @ mid @ [W1] @ post"
  have cb: "AnalyzeBlock ?b empty_analysis = Inr c"
    using c by (simp add: AnalyzeRegion_concat shape)
  have db: "distinct (map op_ptr (block_ops ?b))"
    using d by (simp only: region_ops_concat shape)
  have ops: "region_ops region = block_ops ?b" by (simp only: region_ops_concat shape)
  have "op_ptr W1 \<in> op_ptr ` set (region_ops region)"
    unfolding ops using operation_ops_self [of W1] by auto
  with e have "set (DirectControlPredecessors g (op_ptr W1) None) = preds_of c (op_ptr W1)"
    by blast
  with unknown_write_then_write_block [OF cb db r wu w1 mid] show ?thesis
    by (simp add: TrackAccess_unknown_write written_by_def)
qed

theorem unknown_write_precedes_write_witness:
  "analyze_func ex_before ex_program = Inr ex_graph \<and>
   distinct (map op_ptr (region_ops ex_program)) \<and>
   writes_unknown (ex_op 1 None []) \<and>
   bypasses (ex_op 8 (Some kWrite) [Value True False [9]]) 7 \<and>
   writes_resource (ex_op 2 (Some kWrite) [Value True False [7]]) 7 \<and>
   1 \<in> set (DirectControlPredecessors ex_graph 2 None)"
proof -
  let ?Wu = "ex_op 1 None []"
  let ?X = "ex_op 8 (Some kWrite) [Value True False [9]]"
  let ?W1 = "ex_op 2 (Some kWrite) [Value True False [7]]"
  let ?pre = "[Operation 0 VarHandleOp True None False [] [Value True False [7]] []]"
  let ?post = "[ex_op 3 (Some kRead) [Value True False [7]],
       ex_op 4 (Some kRead) [Value True False [7]],
       Operation 5 OtherOp True (Some kWrite) True [Value True False [7]] []
         [[[ex_op 6 (Some kWrite) [Value True False [8]],
            ex_op 7 (Some kReadWrite) [Value True False [8]]]]]]"
  have dist: "distinct (map op_ptr (region_ops ex_program))" by (simp add: ex_program_ops)
  have reg: "ex_program \<in> set (ex_program # region_regions ex_program)" by simp
  have shape: "concat ex_program = ?pre @ [?Wu] @ [?X] @ [?W1] @ ?post"
    by (simp add: ex_program_def)
  have r: "(7 :: int) \<noteq> kUnknownResourceId" by (simp add: kUnknownResourceId_def)
  have b: "bypasses ?X 7"
    by (simp add: bypasses_def ex_op_def OpIsDeclaration_def GetResourceInfoForOp_def
        FindAccessedResources_def filter_resources_def kUnknownResourceId_def)
  then have mid: "\<forall>x \<in> set [?X]. bypasses x 7" by simp
  have "op_ptr ?Wu = 1" "op_ptr ?W1 = 2" by (simp_all add: ex_op_def)
  with unknown_write_precedes_write [OF ex_program_graph dist reg shape r
      ex_op_classes(1) ex_op_classes(2) mid]
  show ?thesis
    using ex_program_graph dist b ex_op_classes(1) [of 1] ex_op_classes(2) [of 2 7] by simp
qed

end
